theory Spec2Isabelle
  imports Complex_Main "HOL-Library.AList" "HOL-Library.Word"
begin

section \<open>Query tokenizer (\<^verbatim>\<open>src/database.py\<close>, \<^verbatim>\<open>_tokenize_query\<close>)\<close>

text \<open>
  Python strings are modelled as \<^typ>\<open>string\<close>, a character standing for a code point
  below 256. The regular expression \<^verbatim>\<open>[A-Za-z_][A-Za-z0-9_./-]{1,}\<close> only ever matches
  ASCII characters, so every other code point is a separator, in the source and in the model
  alike.

  \<^verbatim>\<open>re.findall\<close> scans from left to right for non-overlapping matches; the quantifier
  \<^verbatim>\<open>{1,}\<close> is greedy and nothing follows it, so a match takes the first character and
  the longest following run of class characters, which must have at least one element.
\<close>

definition is_alpha :: "char \<Rightarrow> bool" where
  "is_alpha c = (let n = (of_char c :: nat) in (65 \<le> n \<and> n \<le> 90) \<or> (97 \<le> n \<and> n \<le> 122))"

definition is_digit :: "char \<Rightarrow> bool" where
  "is_digit c = (let n = (of_char c :: nat) in 48 \<le> n \<and> n \<le> 57)"

definition is_start :: "char \<Rightarrow> bool" where
  "is_start c = (is_alpha c \<or> c = CHR ''_'')"

definition is_cont :: "char \<Rightarrow> bool" where
  "is_cont c = (is_alpha c \<or> is_digit c \<or> c = CHR ''_'' \<or> c = CHR ''.'' \<or> c = CHR ''/'' \<or> c = CHR ''-'')"

text \<open>
  \<^verbatim>\<open>toks = re.findall(r"[A-Za-z_][A-Za-z0-9_./-]{1,}", q)\<close>
\<close>

function findall_tokens :: "string \<Rightarrow> string list" where
  "findall_tokens [] = []"
| "findall_tokens (c # cs) =
     (if is_start c \<and> cs \<noteq> [] \<and> is_cont (hd cs)
      then (c # takeWhile is_cont cs) # findall_tokens (dropWhile is_cont cs)
      else findall_tokens cs)"
  by pat_completeness auto
termination
  by (relation "measure length") (auto simp: length_dropWhile_le less_Suc_eq_le)

text \<open>
  \<^verbatim>\<open>t.lower()\<close> is applied to tokens only, which are ASCII: it maps \<^verbatim>\<open>A-Z\<close> to
  \<^verbatim>\<open>a-z\<close> and leaves every other character alone.
\<close>

definition lower_char :: "char \<Rightarrow> char" where
  "lower_char c =
     (case map_of (zip ''ABCDEFGHIJKLMNOPQRSTUVWXYZ'' ''abcdefghijklmnopqrstuvwxyz'') c of
        Some d \<Rightarrow> d
      | None \<Rightarrow> c)"

definition lower :: "string \<Rightarrow> string" where
  "lower s = map lower_char s"


text \<open>
  The body of the loop \<^verbatim>\<open>for t in toks\<close> over the state \<^verbatim>\<open>(seen, out)\<close>, and the
  function itself, which returns \<^verbatim>\<open>out[:8]\<close>.
\<close>

definition dedup_step :: "string \<Rightarrow> string set \<times> string list \<Rightarrow> string set \<times> string list" where
  "dedup_step t st =
     (let tl = lower t in
      if tl \<notin> fst st then (insert tl (fst st), snd st @ [t]) else st)"

definition tokenize_query :: "string \<Rightarrow> string list" where
  "tokenize_query q = take 8 (snd (fold dedup_step (findall_tokens q) ({}, [])))"

text \<open>
  The pattern as a predicate on a token, with the least number \<open>m\<close> of characters that
  follow the first one as a parameter.
\<close>

definition matches_token_pattern :: "nat \<Rightarrow> string \<Rightarrow> bool" where
  "matches_token_pattern m t =
     (case t of [] \<Rightarrow> False | c # cs \<Rightarrow> is_start c \<and> m \<le> length cs \<and> list_all is_cont cs)"

text \<open>
  The specification's wording of the deduplication: a token is kept, in its own casing and
  at its own place, exactly when no token before it is equal to it case-insensitively.
\<close>

definition first_seen_ci :: "string list \<Rightarrow> string list" where
  "first_seen_ci toks =
     [toks ! i. i \<leftarrow> [0..<length toks], lower (toks ! i) \<notin> lower ` set (take i toks)]"

lemmas tok_eval = tokenize_query_def is_start_def is_cont_def is_alpha_def is_digit_def lower_def
  lower_char_def dedup_step_def Let_def

section \<open>Reciprocal-rank fusion (\<^verbatim>\<open>src/database.py\<close>)\<close>

text \<open>
  Exceptions of the source that the model needs are values of \<open>py_error\<close>; a function that
  can raise returns \<open>py_error + 'a\<close>, with \<open>Inl\<close> for the exception.
\<close>

datatype py_error = ZeroDivisionError | OverflowError | ValueError | SyntaxError string string
  | OtherException string

text \<open>
  A point identifier of the store is an unsigned integer or a string (a UUID); the fusion
  works on \<^verbatim>\<open>str(sp.id)\<close>. \<open>str_int\<close> is Python's \<^verbatim>\<open>str\<close> on an \<^verbatim>\<open>int\<close>: the decimal
  digits, with a leading minus sign for a negative number.
\<close>

datatype point_id = IntId int | StrId string

definition digit_char :: "nat \<Rightarrow> char" where
  "digit_char d = ''0123456789'' ! d"

fun str_nat :: "nat \<Rightarrow> string" where
  "str_nat n = (if n < 10 then [digit_char n] else str_nat (n div 10) @ [digit_char (n mod 10)])"

declare str_nat.simps [simp del]

definition str_int :: "int \<Rightarrow> string" where
  "str_int i = (if i < 0 then CHR ''-'' # str_nat (nat (- i)) else str_nat (nat i))"

fun str_id :: "point_id \<Rightarrow> string" where
  "str_id (IntId i) = str_int i"
| "str_id (StrId s) = s"

text \<open>
  A scored point as the fusion reads it: its identifier and its payload, which may be
  \<^verbatim>\<open>None\<close>. A payload is a dictionary from attribute names to values of some type \<open>'v\<close>,
  kept as an association list. The other fields of the client's \<^verbatim>\<open>ScoredPoint\<close> (version,
  score, vector, ...) are never read by the functions modelled here.
\<close>

record 'v scored_point =
  sp_id :: point_id
  sp_payload :: "(string \<times> 'v) list option"

definition pid_of :: "('v, 'z) scored_point_scheme \<Rightarrow> string" where
  "pid_of sp = str_id (sp_id sp)"

text \<open>
  The two dictionaries \<^verbatim>\<open>scores\<close> and \<^verbatim>\<open>payloads\<close> are association lists in insertion
  order, as a Python \<^verbatim>\<open>dict\<close> iterates: \<^const>\<open>AList.update\<close> replaces the value of a key
  that is present, in place, and appends a new key at the end. \<open>dict_get d k dflt\<close> is
  \<^verbatim>\<open>d.get(k, dflt)\<close>.

  Scores are Python floats in the source. The model computes them in exact rational
  arithmetic: it says which ranks contribute to a score, not how the sum is rounded.
\<close>

definition dict_get :: "('k \<times> 'a) list \<Rightarrow> 'k \<Rightarrow> 'a \<Rightarrow> 'a" where
  "dict_get d k dflt = (case map_of d k of None \<Rightarrow> dflt | Some v \<Rightarrow> v)"

text \<open>
  The inner function \<^verbatim>\<open>add(results)\<close>, a loop over \<^verbatim>\<open>enumerate(results, start=1)\<close> that
  updates both dictionaries; \<open>rank\<close> is the rank of the head of the list. The division
  \<^verbatim>\<open>1.0 / (k + rank)\<close> raises \<^verbatim>\<open>ZeroDivisionError\<close> when \<open>k + rank = 0\<close>.
\<close>

fun add :: "int \<Rightarrow> int \<Rightarrow> 'v scored_point list
    \<Rightarrow> (string \<times> rat) list \<times> (string \<times> (string \<times> 'v) list) list
    \<Rightarrow> py_error + ((string \<times> rat) list \<times> (string \<times> (string \<times> 'v) list) list)" where
  "add k rank [] st = Inr st"
| "add k rank (sp # results) (scores, payloads) =
     (if k + rank = 0 then Inl ZeroDivisionError
      else
        let pid = pid_of sp;
            scores' = AList.update pid (dict_get scores pid 0 + 1 / of_int (k + rank)) scores;
            payloads' = (case sp_payload sp of
                           None \<Rightarrow> payloads
                         | Some p \<Rightarrow> AList.update pid p payloads)
        in add k (rank + 1) results (scores', payloads'))"

text \<open>
  \<^verbatim>\<open>_rrf_fuse(dense, keyword, k)\<close>: the dense leg is added first, then the keyword leg.
  \<^verbatim>\<open>sorted(scores.items(), key=lambda x: x[1], reverse=True)\<close> is a stable sort by
  descending score: entries of equal score keep their order in \<^verbatim>\<open>scores\<close>. That is
  \<^const>\<open>sort_key\<close> (a stable insertion sort) on the negated score.
\<close>

definition rrf_fuse :: "'v scored_point list \<Rightarrow> 'v scored_point list \<Rightarrow> int
    \<Rightarrow> py_error + (string \<times> rat \<times> (string \<times> 'v) list) list" where
  "rrf_fuse dense keyword k =
     (case add k 1 dense ([], []) of
        Inl e \<Rightarrow> Inl e
      | Inr st \<Rightarrow>
          (case add k 1 keyword st of
             Inl e \<Rightarrow> Inl e
           | Inr (scores, payloads) \<Rightarrow>
               let fused = sort_key (\<lambda>x. - snd x) scores
               in Inr (map (\<lambda>(pid, sc). (pid, sc, dict_get payloads pid [])) fused)))"

text \<open>
  Notions the statements use. \<open>ranks_in leg pid\<close> lists the 1-based ranks at which the
  record id \<open>pid\<close> occurs in a leg: \<open>[r]\<close> for a record at rank \<open>r\<close>, \<open>[]\<close> for a record
  the leg does not have. The contribution of a leg to the score of \<open>pid\<close> is the sum of
  \<open>1 / (k + r)\<close> over these ranks. \<open>payloads_for leg pid\<close> lists the payloads that the
  leg carries for \<open>pid\<close>, in the order of the leg. \<open>score_of\<close> and \<open>payload_of\<close> read the
  score and the payload that a fused result list gives to an id.
\<close>

fun ranks_from :: "nat \<Rightarrow> ('v, 'z) scored_point_scheme list \<Rightarrow> string \<Rightarrow> nat list" where
  "ranks_from r [] pid = []"
| "ranks_from r (sp # leg) pid =
     (if pid_of sp = pid then [r] else []) @ ranks_from (Suc r) leg pid"

definition ranks_in :: "('v, 'z) scored_point_scheme list \<Rightarrow> string \<Rightarrow> nat list" where
  "ranks_in leg pid = ranks_from 1 leg pid"

definition leg_contribution :: "int \<Rightarrow> ('v, 'z) scored_point_scheme list \<Rightarrow> string \<Rightarrow> rat" where
  "leg_contribution k leg pid = (\<Sum>r \<leftarrow> ranks_in leg pid. 1 / of_int (k + int r))"

definition payloads_for :: "('v, 'z) scored_point_scheme list \<Rightarrow> string \<Rightarrow> (string \<times> 'v) list list" where
  "payloads_for leg pid =
     List.map_filter (\<lambda>sp. if pid_of sp = pid then sp_payload sp else None) leg"

definition score_of :: "(string \<times> rat \<times> 'p) list \<Rightarrow> string \<Rightarrow> rat option" where
  "score_of fused pid = map_option fst (map_of fused pid)"

definition payload_of :: "(string \<times> rat \<times> 'p) list \<Rightarrow> string \<Rightarrow> 'p option" where
  "payload_of fused pid = map_option snd (map_of fused pid)"

text \<open>
  The sum of the terms that the loop \<^const>\<open>add\<close> adds to the score of \<open>pid\<close>, over every
  occurrence of \<open>pid\<close> in the leg, and the list of scores that the loop builds from a leg
  whose ids are all new.
\<close>

fun leg_sum :: "int \<Rightarrow> int \<Rightarrow> ('v, 'z) scored_point_scheme list \<Rightarrow> string \<Rightarrow> rat" where
  "leg_sum k r [] pid = 0"
| "leg_sum k r (sp # leg) pid =
     (if pid_of sp = pid then 1 / of_int (k + r) else 0) + leg_sum k (r + 1) leg pid"


fun leg_scores :: "int \<Rightarrow> int \<Rightarrow> ('v, 'z) scored_point_scheme list \<Rightarrow> (string \<times> rat) list" where
  "leg_scores k r [] = []"
| "leg_scores k r (sp # leg) = (pid_of sp, 1 / of_int (k + r)) # leg_scores k (r + 1) leg"

text \<open>
  \<^verbatim>\<open>search_keyword\<close>: no tokens, no search. Otherwise every token gives four
  \<^verbatim>\<open>MatchText\<close> conditions (on \<^verbatim>\<open>code\<close>, \<^verbatim>\<open>name\<close>, \<^verbatim>\<open>file\<close> and \<^verbatim>\<open>docstring\<close>) of a
  \<^verbatim>\<open>should\<close> filter, and the store's \<^verbatim>\<open>scroll\<close> is called with the filter and the limit.
  The store is outside the repository: \<open>scroll\<close> is a parameter, and the points it returns
  are copied into scored points in scan order.
\<close>

definition should_conditions :: "string list \<Rightarrow> (string \<times> string) list" where
  "should_conditions tokens =
     concat (map (\<lambda>t. [(''code'', t), (''name'', t), (''file'', t), (''docstring'', t)]) tokens)"

definition search_keyword ::
  "((string \<times> string) list \<Rightarrow> int \<Rightarrow> 'v scored_point list) \<Rightarrow> string \<Rightarrow> int \<Rightarrow> 'v scored_point list" where
  "search_keyword scroll query limit =
     (let tokens = tokenize_query query in
      if tokens = [] then []
      else map (\<lambda>p. \<lparr>sp_id = sp_id p, sp_payload = sp_payload p\<rparr>)
             (scroll (should_conditions tokens) limit))"

text \<open>
  \<^verbatim>\<open>search_hybrid\<close>: both legs, the fusion with the configured constant
  (\<^verbatim>\<open>RRF_K\<close>, 60 unless the environment says otherwise; a parameter here), and for each of
  the first \<^verbatim>\<open>limit\<close> fused results a copy of its payload extended by the keys
  \<^verbatim>\<open>_hybrid_score\<close> and \<^verbatim>\<open>_id\<close>. The dense search is a call to the embedding model and
  the store: a parameter. \<open>py_prefix n xs\<close> is the slice \<^verbatim>\<open>xs[:n]\<close>, also for negative \<open>n\<close>.
\<close>

datatype 'v out_val = Payload 'v | HybridScore rat | RecordId string

definition py_prefix :: "int \<Rightarrow> 'a list \<Rightarrow> 'a list" where
  "py_prefix n xs = (if 0 \<le> n then take (nat n) xs else take (length xs - nat (- n)) xs)"

definition search_hybrid ::
  "(string \<Rightarrow> int \<Rightarrow> 'v scored_point list)
   \<Rightarrow> ((string \<times> string) list \<Rightarrow> int \<Rightarrow> 'v scored_point list)
   \<Rightarrow> int \<Rightarrow> string \<Rightarrow> int \<Rightarrow> py_error + (string \<times> 'v out_val) list list" where
  "search_hybrid search_dense scroll rrf_k query limit =
     (let dense = search_dense query limit;
          keyword = search_keyword scroll query limit
      in case rrf_fuse dense keyword rrf_k of
           Inl e \<Rightarrow> Inl e
         | Inr fused \<Rightarrow>
             Inr (map (\<lambda>(pid, score, payload).
                         AList.update ''_id'' (RecordId pid)
                           (AList.update ''_hybrid_score'' (HybridScore score)
                              (map (\<lambda>(key, v). (key, Payload v)) payload)))
                    (py_prefix limit fused)))"

text \<open>Example result lists for the dense and the keyword leg.\<close>

definition ex_dense :: "string scored_point list" where
  "ex_dense =
     [\<lparr>sp_id = StrId ''A'', sp_payload = Some [(''leg'', ''dense'')]\<rparr>,
      \<lparr>sp_id = IntId 17, sp_payload = Some [(''name'', ''b'')]\<rparr>,
      \<lparr>sp_id = StrId ''C'', sp_payload = None\<rparr>]"

definition ex_keyword :: "string scored_point list" where
  "ex_keyword =
     [\<lparr>sp_id = StrId ''D'', sp_payload = None\<rparr>,
      \<lparr>sp_id = StrId ''C'', sp_payload = Some [(''name'', ''c'')]\<rparr>,
      \<lparr>sp_id = StrId ''A'', sp_payload = Some [(''leg'', ''keyword'')]\<rparr>]"

definition ex_keyword2 :: "string scored_point list" where
  "ex_keyword2 =
     [\<lparr>sp_id = StrId ''A'', sp_payload = None\<rparr>,
      \<lparr>sp_id = StrId ''D'', sp_payload = None\<rparr>,
      \<lparr>sp_id = StrId ''C'', sp_payload = Some [(''name'', ''c'')]\<rparr>]"

lemmas rrf_ex = ex_dense_def ex_keyword_def ex_keyword2_def rrf_fuse_def pid_of_def dict_get_def
  str_int_def str_nat.simps digit_char_def Let_def ranks_in_def leg_contribution_def
  payloads_for_def List.map_filter_def score_of_def payload_of_def

section \<open>Line windows (\<^verbatim>\<open>src/parser.py\<close>, \<^verbatim>\<open>chunk_by_lines\<close>)\<close>

text \<open>
  A character of a text is a code point below 256 here. \<^verbatim>\<open>str.splitlines()\<close> splits at the
  line boundaries \<^verbatim>\<open>\n\<close>, \<^verbatim>\<open>\r\<close>, \<^verbatim>\<open>\r\n\<close> (one boundary), \<^verbatim>\<open>\v\<close>, \<^verbatim>\<open>\f\<close>,
  \<^verbatim>\<open>\x1c\<close>, \<^verbatim>\<open>\x1d\<close>, \<^verbatim>\<open>\x1e\<close> and \<^verbatim>\<open>\x85\<close> (the boundaries U+2028 and U+2029 are
  outside the character type), and a boundary at the very end of the text opens no further
  line. \<open>splitlines_from cur s\<close> scans \<open>s\<close> with the reversed current line \<open>cur\<close>.
\<close>

definition is_linebreak :: "char \<Rightarrow> bool" where
  "is_linebreak c = ((of_char c :: nat) \<in> {10, 11, 12, 13, 28, 29, 30, 133})"

fun splitlines_from :: "string \<Rightarrow> string \<Rightarrow> string list" where
  "splitlines_from cur [] = (if cur = [] then [] else [rev cur])"
| "splitlines_from cur (c # cs) =
     (if c = CHR 0x0D then
        (case cs of
           d # ds \<Rightarrow> if d = CHR 0x0A then rev cur # splitlines_from [] ds
                     else rev cur # splitlines_from [] cs
         | [] \<Rightarrow> rev cur # splitlines_from [] cs)
      else if is_linebreak c then rev cur # splitlines_from [] cs
      else splitlines_from (c # cur) cs)"

definition splitlines :: "string \<Rightarrow> string list" where
  "splitlines text = splitlines_from [] text"

text \<open>
  \<^verbatim>\<open>"\n".join(lines)\<close>, and the slice \<^verbatim>\<open>xs[i:j]\<close> of Python, whose negative
  indices count from the end and whose indices are clipped to the list.
\<close>

fun join_nl :: "string list \<Rightarrow> string" where
  "join_nl [] = []"
| "join_nl [x] = x"
| "join_nl (x # y # ys) = x @ [CHR 0x0A] @ join_nl (y # ys)"

definition py_slice :: "'a list \<Rightarrow> int \<Rightarrow> int \<Rightarrow> 'a list" where
  "py_slice xs i j =
     (let n = int (length xs);
          i' = (if i < 0 then max 0 (i + n) else min i n);
          j' = (if j < 0 then max 0 (j + n) else min j n)
      in take (nat (j' - i')) (drop (nat i') xs))"

text \<open>
  The \<^verbatim>\<open>while start < n\<close> loop of \<^verbatim>\<open>chunk_by_lines\<close>, from a value of \<^verbatim>\<open>start\<close>: the
  chunk \<^verbatim>\<open>(start + 1, end, chunk_text)\<close> is appended, the loop stops when \<^verbatim>\<open>end == n\<close>,
  and otherwise goes on from \<^verbatim>\<open>start + step\<close> with \<^verbatim>\<open>step = max(1, chunk_lines - overlap)\<close>.
  Line numbers are 1-based and inclusive. The loop ends since \<open>step \<ge> 1\<close>.
\<close>

function chunk_loop :: "string list \<Rightarrow> int \<Rightarrow> int \<Rightarrow> int \<Rightarrow> (int \<times> int \<times> string) list" where
  "chunk_loop lines chunk_lines overlap start =
     (let n = int (length lines); step = max 1 (chunk_lines - overlap) in
      if start < n then
        let endl = min n (start + chunk_lines);
            chunk_text = join_nl (py_slice lines start endl)
        in (start + 1, endl, chunk_text)
           # (if endl = n then [] else chunk_loop lines chunk_lines overlap (start + step))
      else [])"
  by pat_completeness auto
termination
  by (relation "measure (\<lambda>(lines, chunk_lines, overlap, start). nat (int (length lines) - start))") auto

declare chunk_loop.simps [simp del]

definition chunk_by_lines :: "string \<Rightarrow> int \<Rightarrow> int \<Rightarrow> (int \<times> int \<times> string) list" where
  "chunk_by_lines text chunk_lines overlap =
     (let lines = splitlines text; n = length lines in
      if n = 0 then [] else chunk_loop lines chunk_lines overlap 0)"

text \<open>
  For the statements: the line ranges of a chunk list, and the number of lines that two
  ranges have in common.
\<close>

definition shared_lines :: "int \<times> int \<Rightarrow> int \<times> int \<Rightarrow> nat" where
  "shared_lines a b = card ({fst a..snd a} \<inter> {fst b..snd b})"

definition windows :: "(int \<times> int \<times> string) list \<Rightarrow> (int \<times> int) list" where
  "windows chunks = map (\<lambda>(s, e, t). (s, e)) chunks"

text \<open>An example file of seven lines.\<close>

definition ex_text :: string where
  "ex_text = join_nl [''import os'', [], ''def f():'', ''    return 1'', [], ''def g():'', ''    return 2'']"

lemmas chunk_eval = chunk_by_lines_def chunk_loop.simps splitlines_def is_linebreak_def py_slice_def
  windows_def shared_lines_def Let_def ex_text_def

section \<open>Record identifiers (\<^verbatim>\<open>src/ingest.py\<close>, \<^verbatim>\<open>_stable_point_id\<close>)\<close>

text \<open>
  A parsed item is a dictionary of the extraction artifact. The parser writes the keys
  below, with strings, integers and string lists as values; a field is \<open>None\<close> here when the
  key is absent, and \<open>get_or v dflt\<close> is \<^verbatim>\<open>item.get(key, dflt)\<close>.
\<close>

record item =
  it_type :: "string option"
  it_name :: "string option"
  it_symbol :: "string option"
  it_start_line :: "int option"
  it_end_line :: "int option"
  it_docstring :: "string option"
  it_code :: "string option"
  it_preceding_comments :: "string list option"
  it_language :: "string option"

definition get_or :: "'a option \<Rightarrow> 'a \<Rightarrow> 'a" where
  "get_or v dflt = (case v of None \<Rightarrow> dflt | Some x \<Rightarrow> x)"

text \<open>
  \<^verbatim>\<open>uuid.uuid5(namespace, name)\<close> belongs to Python's library: it hashes the namespace and
  the name with SHA-1 into a UUID, a value of 128 bits. It is a parameter \<open>uuid5\<close> of the
  model, any function from a namespace and a name to a UUID. \<open>str_uuid\<close> is \<^verbatim>\<open>str\<close> on a
  UUID: its 32 hexadecimal digits in the groups 8-4-4-4-12.
\<close>

type_synonym uuid = "128 word"

definition NAMESPACE_URL :: uuid where
  "NAMESPACE_URL = 0x6ba7b8119dad11d180b400c04fd430c8"

definition hex_char :: "nat \<Rightarrow> char" where
  "hex_char d = ''0123456789abcdef'' ! d"

definition hex_digits :: "uuid \<Rightarrow> string" where
  "hex_digits u = map (\<lambda>i. hex_char (unat (drop_bit (4 * (31 - i)) u) mod 16)) [0..<32]"

definition str_uuid :: "uuid \<Rightarrow> string" where
  "str_uuid u =
     (let h = hex_digits u in
      take 8 h @ ''-'' @ take 4 (drop 8 h) @ ''-'' @ take 4 (drop 12 h) @ ''-''
        @ take 4 (drop 16 h) @ ''-'' @ drop 20 h)"

text \<open>
  The composite key \<^verbatim>\<open>f"{file_path}::{typ}::{symbol}::{name}::{start}-{end}"\<close> as a
  function of its six values, and \<^verbatim>\<open>_stable_point_id\<close>, which reads five of them from the
  item with the defaults of the source.
\<close>

definition point_key :: "string \<Rightarrow> string \<Rightarrow> string \<Rightarrow> string \<Rightarrow> int \<Rightarrow> int \<Rightarrow> string" where
  "point_key file_path typ symbol name start endl =
     file_path @ ''::'' @ typ @ ''::'' @ symbol @ ''::'' @ name @ ''::''
       @ str_int start @ ''-'' @ str_int endl"

definition stable_point_id :: "(uuid \<Rightarrow> string \<Rightarrow> uuid) \<Rightarrow> string \<Rightarrow> item \<Rightarrow> string" where
  "stable_point_id uuid5 file_path item =
     (let start = get_or (it_start_line item) 1;
          endl = get_or (it_end_line item) start;
          typ = get_or (it_type item) ''Unknown'';
          symbol = get_or (it_symbol item) '''';
          name = get_or (it_name item) '''';
          key = point_key file_path typ symbol name start endl
      in str_uuid (uuid5 NAMESPACE_URL key))"

text \<open>
  The key that \<^verbatim>\<open>_stable_point_id\<close> hashes for a file path and an item, and an example
  item.
\<close>

definition key_of_item :: "string \<Rightarrow> item \<Rightarrow> string" where
  "key_of_item file_path item =
     point_key file_path (get_or (it_type item) ''Unknown'') (get_or (it_symbol item) [])
       (get_or (it_name item) []) (get_or (it_start_line item) 1)
       (get_or (it_end_line item) (get_or (it_start_line item) 1))"

definition ex_item :: item where
  "ex_item = \<lparr>it_type = Some ''Function'', it_name = Some ''a.py::f'', it_symbol = Some ''f'',
     it_start_line = Some 3, it_end_line = Some 7, it_docstring = Some [],
     it_code = Some ''def f(): pass'', it_preceding_comments = Some [], it_language = Some ''python''\<rparr>"

text \<open>For the proofs: the value of a decimal digit and of a string of decimal digits.\<close>

definition digit_val :: "char \<Rightarrow> nat" where
  "digit_val c = of_char c - 48"

definition dec_val :: "string \<Rightarrow> nat" where
  "dec_val s = foldl (\<lambda>a c. 10 * a + digit_val c) 0 s"

section \<open>Extraction run (\<^verbatim>\<open>src/parser.py\<close>, \<^verbatim>\<open>CodeParser.parse\<close> and \<^verbatim>\<open>run\<close>)\<close>

text \<open>
  The body of the \<^verbatim>\<open>try\<close> in \<^verbatim>\<open>CodeParser.parse\<close>, \<^verbatim>\<open>ast.parse(self.content)\<close> followed by
  the visitor walk, works on Python's syntax trees: it is the parameter \<open>ast_visit\<close>, which
  for a file path and a text either raises an exception or returns the items, imports and
  global variables that the visitor collects. \<open>SyntaxError cls msg\<close> is a syntax error of
  class \<open>cls\<close> (\<^verbatim>\<open>SyntaxError\<close> or a subclass) whose \<^verbatim>\<open>str\<close> is \<open>msg\<close>. \<^verbatim>\<open>parse\<close> catches
  \<^verbatim>\<open>SyntaxError\<close> only: any other exception leaves it.
\<close>

record ast_result =
  ar_items :: "item list"
  ar_imports :: "string list"
  ar_global_variables :: "string list"
  ar_syntax_error :: "string option"

definition parse ::
  "(string \<Rightarrow> string \<Rightarrow> py_error + item list \<times> string list \<times> string list)
   \<Rightarrow> string \<Rightarrow> string \<Rightarrow> py_error + ast_result" where
  "parse ast_visit file_path content =
     (case ast_visit file_path content of
        Inr (items, imports, global_variables) \<Rightarrow>
          Inr \<lparr>ar_items = items, ar_imports = imports,
               ar_global_variables = global_variables, ar_syntax_error = None\<rparr>
      | Inl (SyntaxError cls msg) \<Rightarrow>
          Inr \<lparr>ar_items = [], ar_imports = [], ar_global_variables = [],
               ar_syntax_error = Some (cls @ '': '' @ msg)\<rparr>
      | Inl e \<Rightarrow> Inl e)"

text \<open>
  The entry of one file in \<^verbatim>\<open>parsed_code\<close>, the item that \<^verbatim>\<open>run\<close> makes of a chunk, and
  the entry of a file that \<^verbatim>\<open>safe_read_text\<close> could not read or found too large.
\<close>

record file_entry =
  fe_ast_items :: "item list"
  fe_file_chunks :: "item list"
  fe_imports :: "string list"
  fe_global_variables :: "string list"
  fe_syntax_error :: "string option"

definition file_chunk_item :: "string \<Rightarrow> int \<times> int \<times> string \<Rightarrow> item" where
  "file_chunk_item rel_path chunk =
     (case chunk of (s, e, chunk_text) \<Rightarrow>
        \<lparr>it_type = Some ''FileChunk'',
         it_name = Some (rel_path @ ''::chunk_'' @ str_int s @ ''_'' @ str_int e),
         it_symbol = Some [],
         it_start_line = Some s,
         it_end_line = Some e,
         it_docstring = Some [],
         it_code = Some chunk_text,
         it_preceding_comments = Some [],
         it_language = Some ''python''\<rparr>)"

definition skipped_entry :: file_entry where
  "skipped_entry =
     \<lparr>fe_ast_items = [], fe_file_chunks = [], fe_imports = [], fe_global_variables = [],
      fe_syntax_error = Some ''SKIPPED: unreadable or too large''\<rparr>"

text \<open>
  The body of the loop \<^verbatim>\<open>for fp in py_files\<close> for one file, given its relative path and
  what \<^verbatim>\<open>safe_read_text\<close> returned for it: the entry it stores under the path, and the
  records it appends to \<^verbatim>\<open>syntax_errors\<close> (one when \<^verbatim>\<open>ast_result.get("syntax_error")\<close>
  is a non-empty string). The chunks are computed whatever \<^verbatim>\<open>parse\<close> returned.
\<close>

definition process_file ::
  "(string \<Rightarrow> string \<Rightarrow> py_error + item list \<times> string list \<times> string list)
   \<Rightarrow> int \<Rightarrow> int \<Rightarrow> string \<Rightarrow> string option
   \<Rightarrow> py_error + file_entry \<times> (string \<times> string) list" where
  "process_file ast_visit chunk_lines chunk_overlap rel_path content_opt =
     (case content_opt of
        None \<Rightarrow> Inr (skipped_entry, [])
      | Some content \<Rightarrow>
          (case parse ast_visit rel_path content of
             Inl e \<Rightarrow> Inl e
           | Inr ast_result \<Rightarrow>
               let new_errors =
                     (case ar_syntax_error ast_result of
                        None \<Rightarrow> []
                      | Some m \<Rightarrow> if m \<noteq> [] then [(rel_path, m)] else []);
                   chunks = chunk_by_lines content chunk_lines chunk_overlap;
                   file_chunks = map (file_chunk_item rel_path) chunks
               in Inr (\<lparr>fe_ast_items = ar_items ast_result,
                         fe_file_chunks = file_chunks,
                         fe_imports = ar_imports ast_result,
                         fe_global_variables = ar_global_variables ast_result,
                         fe_syntax_error = ar_syntax_error ast_result\<rparr>,
                       new_errors)))"

text \<open>
  The loop over the files with its state, the dictionary \<^verbatim>\<open>parsed\<close> and the list
  \<^verbatim>\<open>syntax_errors\<close>, and the document that \<^verbatim>\<open>run\<close> writes, with the list of syntax
  errors cut to its first 200 records. The file system is outside the model: \<open>files\<close> is
  the list of relative paths in the order of \<^verbatim>\<open>iter_files\<close>, each with its text or
  \<open>None\<close>; \<^verbatim>\<open>CHUNK_LINES\<close> and \<^verbatim>\<open>CHUNK_OVERLAP\<close> come from the environment.
\<close>

fun run_loop ::
  "(string \<Rightarrow> string \<Rightarrow> py_error + item list \<times> string list \<times> string list)
   \<Rightarrow> int \<Rightarrow> int \<Rightarrow> (string \<times> string option) list
   \<Rightarrow> (string \<times> file_entry) list \<times> (string \<times> string) list
   \<Rightarrow> py_error + (string \<times> file_entry) list \<times> (string \<times> string) list" where
  "run_loop ast_visit chunk_lines chunk_overlap [] st = Inr st"
| "run_loop ast_visit chunk_lines chunk_overlap ((rel_path, content_opt) # files) (parsed, syntax_errors) =
     (case process_file ast_visit chunk_lines chunk_overlap rel_path content_opt of
        Inl e \<Rightarrow> Inl e
      | Inr (entry, new_errors) \<Rightarrow>
          run_loop ast_visit chunk_lines chunk_overlap files
            (AList.update rel_path entry parsed, syntax_errors @ new_errors))"

record final_doc =
  fd_repo_root :: string
  fd_readme :: string
  fd_parsed_code :: "(string \<times> file_entry) list"
  fd_num_files :: nat
  fd_num_syntax_errors :: nat
  fd_chunk_lines :: int
  fd_chunk_overlap :: int
  fd_syntax_errors :: "(string \<times> string) list"

definition run ::
  "(string \<Rightarrow> string \<Rightarrow> py_error + item list \<times> string list \<times> string list)
   \<Rightarrow> int \<Rightarrow> int \<Rightarrow> string \<Rightarrow> string \<Rightarrow> (string \<times> string option) list
   \<Rightarrow> py_error + final_doc" where
  "run ast_visit chunk_lines chunk_overlap repo_root readme_content files =
     (case run_loop ast_visit chunk_lines chunk_overlap files ([], []) of
        Inl e \<Rightarrow> Inl e
      | Inr (parsed, syntax_errors) \<Rightarrow>
          Inr \<lparr>fd_repo_root = repo_root,
               fd_readme = readme_content,
               fd_parsed_code = parsed,
               fd_num_files = length files,
               fd_num_syntax_errors = length syntax_errors,
               fd_chunk_lines = chunk_lines,
               fd_chunk_overlap = chunk_overlap,
               fd_syntax_errors = take 200 syntax_errors\<rparr>)"

text \<open>
  For the statements: a result of \<open>ast_visit\<close> that \<^verbatim>\<open>parse\<close> does not catch, and a file for
  which that happens.
\<close>

definition uncaught :: "py_error + 'a \<Rightarrow> bool" where
  "uncaught r = (case r of Inl (SyntaxError cls msg) \<Rightarrow> False | Inl e \<Rightarrow> True | Inr v \<Rightarrow> False)"

definition file_raises ::
  "(string \<Rightarrow> string \<Rightarrow> py_error + item list \<times> string list \<times> string list)
   \<Rightarrow> string \<times> string option \<Rightarrow> bool" where
  "file_raises ast_visit f = (case snd f of None \<Rightarrow> False | Some content \<Rightarrow> uncaught (ast_visit (fst f) content))"

text \<open>An example run: one file with a syntax error, one unreadable file, two good files.\<close>

definition ex_ast_visit :: "string \<Rightarrow> string \<Rightarrow> py_error + item list \<times> string list \<times> string list" where
  "ex_ast_visit file_path content =
     (if content = ''def f(:'' then Inl (SyntaxError ''SyntaxError'' ''invalid syntax'')
      else Inr ([], [''os''], [''x'']))"

definition ex_files :: "(string \<times> string option) list" where
  "ex_files = [(''good.py'', Some ''x = 1''), (''bad.py'', Some ''def f(:''),
               (''big.py'', None), (''last.py'', Some ''y = 2'')]"

lemmas run_eval = run_def process_file_def parse_def ex_ast_visit_def ex_files_def
  file_chunk_item_def skipped_entry_def file_raises_def uncaught_def
  chunk_by_lines_def chunk_loop.simps splitlines_def is_linebreak_def py_slice_def Let_def
  str_int_def str_nat.simps digit_char_def

section \<open>Ingestion (\<^verbatim>\<open>src/ingest.py\<close>, \<^verbatim>\<open>run_ingest\<close>)\<close>

text \<open>
  \<^verbatim>\<open>str.strip()\<close> removes the white space at both ends of a string; among the code points
  below 256 the white space characters are \<^verbatim>\<open>\t\<close>, \<^verbatim>\<open>\n\<close>, \<^verbatim>\<open>\v\<close>, \<^verbatim>\<open>\f\<close>,
  \<^verbatim>\<open>\r\<close>, \<^verbatim>\<open>\x1c\<close> to \<^verbatim>\<open>\x1f\<close>, the space, \<^verbatim>\<open>\x85\<close> and \<^verbatim>\<open>\xa0\<close>.
\<close>

definition is_space :: "char \<Rightarrow> bool" where
  "is_space c = ((of_char c :: nat) \<in> {9, 10, 11, 12, 13, 28, 29, 30, 31, 32, 133, 160})"

definition strip :: "string \<Rightarrow> string" where
  "strip s = rev (dropWhile is_space (rev (dropWhile is_space s)))"

text \<open>
  The payload of a record of the codebase collection and the point that is upserted: an
  identifier, the dense vector and the payload. The embedding model is outside the
  repository: \<open>embed_query\<close> is a parameter, into any type of vectors. \<open>int_or v dflt\<close> is
  \<^verbatim>\<open>int(v or dflt)\<close> on an integer \<open>v\<close>.
\<close>

record code_payload =
  p_file :: string
  p_name :: string
  p_symbol :: string
  p_type :: string
  p_language :: string
  p_start_line :: int
  p_end_line :: int
  p_docstring :: string
  p_preceding_comments :: "string list"
  p_code :: string
  p_repo_root :: string

record 'vec point_struct =
  ps_id :: string
  ps_vector :: 'vec
  ps_payload :: code_payload

definition int_or :: "int \<Rightarrow> int \<Rightarrow> int" where
  "int_or v dflt = (if v = 0 then dflt else v)"

definition build_point ::
  "(uuid \<Rightarrow> string \<Rightarrow> uuid) \<Rightarrow> (string \<Rightarrow> 'vec) \<Rightarrow> string \<Rightarrow> string \<Rightarrow> item \<Rightarrow> string
   \<Rightarrow> 'vec point_struct" where
  "build_point uuid5 embed_query repo_root file_path item code_text =
     (let point_id = stable_point_id uuid5 file_path item;
          vec = embed_query code_text;
          payload =
            \<lparr>p_file = file_path,
             p_name = get_or (it_name item) [],
             p_symbol = get_or (it_symbol item) [],
             p_type = get_or (it_type item) ''Unknown'',
             p_language = get_or (it_language item) ''python'',
             p_start_line = int_or (get_or (it_start_line item) 1) 1,
             p_end_line = int_or (get_or (it_end_line item) 1) 1,
             p_docstring = get_or (it_docstring item) [],
             p_preceding_comments = get_or (it_preceding_comments item) [],
             p_code = code_text,
             p_repo_root = repo_root\<rparr>
      in \<lparr>ps_id = point_id, ps_vector = vec, ps_payload = payload\<rparr>)"

text \<open>
  The two nested loops of step 3: for every file of \<^verbatim>\<open>parsed_code\<close>, in the order of the
  dictionary, and every item of its \<^verbatim>\<open>ast_items\<close> followed by its \<^verbatim>\<open>file_chunks\<close>, the
  code text is stripped; an item whose stripped code is empty is skipped by \<^verbatim>\<open>continue\<close>,
  any other item appends a point.
\<close>

fun item_loop ::
  "(uuid \<Rightarrow> string \<Rightarrow> uuid) \<Rightarrow> (string \<Rightarrow> 'vec) \<Rightarrow> string \<Rightarrow> string \<Rightarrow> item list
   \<Rightarrow> 'vec point_struct list \<Rightarrow> 'vec point_struct list" where
  "item_loop uuid5 embed_query repo_root file_path [] points = points"
| "item_loop uuid5 embed_query repo_root file_path (item # items) points =
     (let code_text = strip (get_or (it_code item) []) in
      if code_text = [] then item_loop uuid5 embed_query repo_root file_path items points
      else item_loop uuid5 embed_query repo_root file_path items
             (points @ [build_point uuid5 embed_query repo_root file_path item code_text]))"

fun file_loop ::
  "(uuid \<Rightarrow> string \<Rightarrow> uuid) \<Rightarrow> (string \<Rightarrow> 'vec) \<Rightarrow> string \<Rightarrow> (string \<times> file_entry) list
   \<Rightarrow> 'vec point_struct list \<Rightarrow> 'vec point_struct list" where
  "file_loop uuid5 embed_query repo_root [] points = points"
| "file_loop uuid5 embed_query repo_root ((file_path, info) # rest) points =
     file_loop uuid5 embed_query repo_root rest
       (item_loop uuid5 embed_query repo_root file_path
          (fe_ast_items info @ fe_file_chunks info) points)"

text \<open>
  \<^verbatim>\<open>_batched(it, batch_size)\<close> yields \<^verbatim>\<open>it[i : i + batch_size]\<close> for \<open>i\<close> in
  \<^verbatim>\<open>range(0, len(it), batch_size)\<close>: \<^verbatim>\<open>range\<close> raises \<^verbatim>\<open>ValueError\<close> for the step 0
  and is empty for a negative step.
\<close>

function slices :: "nat \<Rightarrow> 'a list \<Rightarrow> 'a list list" where
  "slices n xs = (if n = 0 \<or> xs = [] then [] else take n xs # slices n (drop n xs))"
  by pat_completeness auto
termination
  by (relation "measure (\<lambda>(n, xs). length xs)") auto

declare slices.simps [simp del]

definition batched :: "'a list \<Rightarrow> int \<Rightarrow> py_error + 'a list list" where
  "batched it batch_size =
     (if batch_size = 0 then Inl ValueError
      else if batch_size < 0 then Inr []
      else Inr (slices (nat batch_size) it))"

text \<open>
  \<^verbatim>\<open>run_ingest\<close>, as the list of batches it passes to \<^verbatim>\<open>upsert_code_points\<close>, in order.
  Its input is the extraction artifact, \<open>None\<close> when the file does not exist; the keys
  \<^verbatim>\<open>repo_root\<close> and \<^verbatim>\<open>parsed_code\<close> may be absent. It returns without any upsert when
  there is no artifact, no parsed code or no point.
\<close>

record ingest_data =
  d_repo_root :: "string option"
  d_parsed_code :: "(string \<times> file_entry) list option"

definition run_ingest ::
  "(uuid \<Rightarrow> string \<Rightarrow> uuid) \<Rightarrow> (string \<Rightarrow> 'vec) \<Rightarrow> int \<Rightarrow> ingest_data option
   \<Rightarrow> py_error + 'vec point_struct list list" where
  "run_ingest uuid5 embed_query batch_size data_opt =
     (case data_opt of
        None \<Rightarrow> Inr []
      | Some data \<Rightarrow>
          let parsed_code = get_or (d_parsed_code data) [] in
          if parsed_code = [] then Inr []
          else
            let repo_root = get_or (d_repo_root data) [];
                points = file_loop uuid5 embed_query repo_root parsed_code []
            in if points = [] then Inr [] else batched points batch_size)"

text \<open>
  For the statements: every parsed item of the artifact with its file path, in the order of
  the loops, and the stripped code of an item.
\<close>

definition all_items :: "(string \<times> file_entry) list \<Rightarrow> (string \<times> item) list" where
  "all_items parsed_code =
     concat (map (\<lambda>(file_path, info). map (Pair file_path) (fe_ast_items info @ fe_file_chunks info))
               parsed_code)"

definition stripped_code :: "item \<Rightarrow> string" where
  "stripped_code item = strip (get_or (it_code item) [])"

text \<open>An example artifact: six items, three of them with no code or white space only.\<close>

definition ex_parsed :: "(string \<times> file_entry) list" where
  "ex_parsed =
     [(''a.py'',
       \<lparr>fe_ast_items = [ex_item, ex_item\<lparr>it_code := Some ''   ''\<rparr>, ex_item\<lparr>it_code := None\<rparr>],
        fe_file_chunks = [file_chunk_item ''a.py'' (1, 1, '' x = 1 '')],
        fe_imports = [], fe_global_variables = [''x''], fe_syntax_error = None\<rparr>),
      (''b.py'',
       \<lparr>fe_ast_items = [],
        fe_file_chunks = [file_chunk_item ''b.py'' (1, 2, [CHR 0x0A, CHR 0x09]),
                          file_chunk_item ''b.py'' (2, 3, ''y'')],
        fe_imports = [], fe_global_variables = [], fe_syntax_error = None\<rparr>)]"

lemmas ingest_eval = run_ingest_def batched_def slices.simps get_or_def stripped_code_def strip_def
  is_space_def all_items_def ex_parsed_def ex_item_def file_chunk_item_def build_point_def Let_def

section \<open>Lemmas about the tokenizer\<close>

lemma findall_tokens_match: "t \<in> set (findall_tokens q) \<Longrightarrow> matches_token_pattern 1 t"
proof (induction q arbitrary: t rule: findall_tokens.induct)
  case 1
  then show ?case by simp
next
  case (2 c cs)
  show ?case
  proof (cases "is_start c \<and> cs \<noteq> [] \<and> is_cont (hd cs)")
    case True
    then obtain d ds where cs: "cs = d # ds" and d: "is_cont d" by (cases cs) auto
    from "2.prems" True
    consider "t = c # takeWhile is_cont cs" | "t \<in> set (findall_tokens (dropWhile is_cont cs))"
      by auto
    then show ?thesis
    proof cases
      case 1
      have "list_all is_cont (takeWhile is_cont cs)"
        by (simp add: list_all_iff) (meson set_takeWhileD)
      with 1 True cs d show ?thesis
        by (simp add: matches_token_pattern_def)
    next
      case 2
      with "2.IH"(1) True show ?thesis by blast
    qed
  next
    case False
    with "2.prems" have "t \<in> set (findall_tokens cs)" by auto
    with "2.IH"(2) False show ?thesis by blast
  qed
qed

lemma first_seen_ci_snoc:
  "first_seen_ci (xs @ [t]) =
     first_seen_ci xs @ (if lower t \<notin> lower ` set xs then [t] else [])"
proof -
  have "[(xs @ [t]) ! i. i \<leftarrow> [0..<length xs], lower ((xs @ [t]) ! i) \<notin> lower ` set (take i (xs @ [t]))]
      = [xs ! i. i \<leftarrow> [0..<length xs], lower (xs ! i) \<notin> lower ` set (take i xs)]"
    by (rule arg_cong [where f = concat], rule map_cong) (auto simp: nth_append)
  then show ?thesis
    by (simp add: first_seen_ci_def)
qed

lemma dedup_fold_spec:
  "fold dedup_step toks ({}, []) = (lower ` set toks, first_seen_ci toks)"
proof (induction toks rule: rev_induct)
  case Nil
  show ?case by (simp add: first_seen_ci_def)
next
  case (snoc t toks)
  then show ?case
    by (auto simp: dedup_step_def Let_def first_seen_ci_snoc)
qed

lemma first_seen_ci_subset: "set (first_seen_ci toks) \<subseteq> set toks"
  by (auto simp: first_seen_ci_def)

lemma tokenize_query_subset: "set (tokenize_query q) \<subseteq> set (findall_tokens q)"
proof -
  have "set (tokenize_query q) \<subseteq> set (first_seen_ci (findall_tokens q))"
    unfolding tokenize_query_def dedup_fold_spec snd_conv by (rule set_take_subset)
  with first_seen_ci_subset show ?thesis by blast
qed

lemma first_seen_ci_distinct: "distinct (map lower (first_seen_ci toks))"
proof (induction toks rule: rev_induct)
  case Nil
  show ?case by (simp add: first_seen_ci_def)
next
  case (snoc t toks)
  with first_seen_ci_subset [of toks] show ?case
    by (auto simp: first_seen_ci_snoc)
qed


section \<open>Theorems about the tokenizer\<close>

text \<open>
  Claim C2, as the code has it: every token the tokenizer emits is a letter or underscore
  followed by \<^emph>\<open>one\<close> or more characters drawn from letters, digits, underscore, dot,
  slash and hyphen, so every token has length at least 2.
\<close>

theorem tokenize_query_pattern:
  "t \<in> set (tokenize_query q) \<Longrightarrow> matches_token_pattern 1 t \<and> 2 \<le> length t"
proof -
  assume "t \<in> set (tokenize_query q)"
  with tokenize_query_subset have "t \<in> set (findall_tokens q)" by blast
  then have m: "matches_token_pattern 1 t" by (rule findall_tokens_match)
  then show ?thesis by (cases t) (auto simp: matches_token_pattern_def)
qed

theorem tokenize_query_pattern_witness:
  "''ab'' \<in> set (tokenize_query ''ab cd9'') \<and> matches_token_pattern 1 ''ab'' \<and> 2 \<le> length ''ab''"
proof -
  have h: "''ab'' \<in> set (tokenize_query ''ab cd9'')" by (simp add: tok_eval)
  show ?thesis using h tokenize_query_pattern [OF h] by simp
qed

text \<open>
  Claim C2 as stated (two or more following characters, length at least 3) fails: the query
  \<^verbatim>\<open>ab\<close> yields the token \<^verbatim>\<open>ab\<close> of length 2.
\<close>

theorem tokenize_query_two_or_more_counterexample:
  "\<not> (\<forall>q. \<forall>t \<in> set (tokenize_query q). matches_token_pattern 2 t \<and> 3 \<le> length t)"
proof
  assume "\<forall>q. \<forall>t \<in> set (tokenize_query q). matches_token_pattern 2 t \<and> 3 \<le> length t"
  then have "\<forall>t \<in> set (tokenize_query ''ab''). matches_token_pattern 2 t \<and> 3 \<le> length t"
    by blast
  then show False by (simp add: tok_eval)
qed

text \<open>
  Claim C3: for every query the returned token list has at most 8 elements, no two of them
  are equal case-insensitively, and it is the first 8 elements of the first-seen tokens of
  the query, in their original casing and order.
\<close>

theorem tokenize_query_cap_dedup:
  "length (tokenize_query q) \<le> 8
   \<and> distinct (map lower (tokenize_query q))
   \<and> tokenize_query q = take 8 (first_seen_ci (findall_tokens q))"
proof -
  have eq: "tokenize_query q = take 8 (first_seen_ci (findall_tokens q))"
    by (simp add: tokenize_query_def dedup_fold_spec)
  have "distinct (map lower (take 8 (first_seen_ci (findall_tokens q))))"
    unfolding take_map [symmetric] by (rule distinct_take) (rule first_seen_ci_distinct)
  with eq show ?thesis by simp
qed

theorem tokenize_query_cap_dedup_witness:
  "tokenize_query ''Foo foo a1 b2 c3 FOO d4 e5 f6 g7 h8 i9'' =
     [''Foo'', ''a1'', ''b2'', ''c3'', ''d4'', ''e5'', ''f6'', ''g7'']
   \<and> first_seen_ci [''Foo'', ''foo'', ''a1'', ''FOO''] = [''Foo'', ''a1'']
   \<and> length (tokenize_query ''Foo foo a1 b2 c3 FOO d4 e5 f6 g7 h8 i9'') \<le> 8"
  using tokenize_query_cap_dedup [of "''Foo foo a1 b2 c3 FOO d4 e5 f6 g7 h8 i9''"]
  by (simp add: tok_eval first_seen_ci_def)

section \<open>Lemmas about the fusion\<close>

lemma add_returns:
  "(\<exists>st'. add k r leg st = Inr st') \<longleftrightarrow> (\<forall>i < length leg. k + r + int i \<noteq> 0)"
proof (induction leg arbitrary: r st)
  case Nil
  show ?case by simp
next
  case (Cons sp leg)
  obtain sc pl where st: "st = (sc, pl)" by (cases st)
  show ?case
  proof (cases "k + r = 0")
    case True
    then show ?thesis unfolding st by auto
  next
    case False
    have "(\<forall>i < length (sp # leg). k + r + int i \<noteq> 0) \<longleftrightarrow> (\<forall>i < length leg. k + (r + 1) + int i \<noteq> 0)"
      using False by (auto simp: less_Suc_eq_0_disj algebra_simps)
    with False Cons.IH show ?thesis unfolding st by (simp add: Let_def)
  qed
qed

lemma add_keys:
  "add k r leg (sc, pl) = Inr (sc', pl') \<Longrightarrow> fst ` set sc' = fst ` set sc \<union> pid_of ` set leg"
proof (induction leg arbitrary: r sc pl)
  case Nil
  then show ?case by simp
next
  case (Cons sp leg)
  then show ?case
    by (auto simp: Let_def dom_update split: if_splits)
qed

lemma add_distinct:
  "add k r leg (sc, pl) = Inr (sc', pl') \<Longrightarrow> distinct (map fst sc) \<Longrightarrow> distinct (map fst sc')"
proof (induction leg arbitrary: r sc pl)
  case Nil
  then show ?case by simp
next
  case (Cons sp leg)
  then show ?case
    by (auto simp: Let_def distinct_update split: if_splits)
qed

lemma dict_get_update:
  "dict_get (AList.update a v d) b dflt = (if b = a then v else dict_get d b dflt)"
  by (simp add: dict_get_def update_conv')

lemma add_scores:
  "add k r leg (sc, pl) = Inr (sc', pl')
   \<Longrightarrow> dict_get sc' pid 0 = dict_get sc pid 0 + leg_sum k r leg pid"
proof (induction leg arbitrary: r sc pl)
  case Nil
  then show ?case by simp
next
  case (Cons sp leg)
  from Cons.prems have nz: "k + r \<noteq> 0" by (auto split: if_splits)
  define sc1 where "sc1 = AList.update (pid_of sp) (dict_get sc (pid_of sp) 0 + 1 / of_int (k + r)) sc"
  define pl1 where "pl1 = (case sp_payload sp of None \<Rightarrow> pl | Some p \<Rightarrow> AList.update (pid_of sp) p pl)"
  from Cons.prems nz have "add k (r + 1) leg (sc1, pl1) = Inr (sc', pl')"
    by (simp add: Let_def sc1_def pl1_def)
  from Cons.IH [OF this]
  have "dict_get sc' pid 0 = dict_get sc1 pid 0 + leg_sum k (r + 1) leg pid" .
  then show ?case
    by (simp add: sc1_def dict_get_update)
qed

text \<open>Decomposition of a successful fusion.\<close>

lemma rrf_fuse_InrD:
  assumes "rrf_fuse dense keyword k = Inr fused"
  obtains sc0 pl0 sc pl where
    "add k 1 dense ([], []) = Inr (sc0, pl0)"
    "add k 1 keyword (sc0, pl0) = Inr (sc, pl)"
    "fused = map (\<lambda>(pid, s). (pid, s, dict_get pl pid [])) (sort_key (\<lambda>x. - snd x) sc)"
  using assms
  by (auto simp: rrf_fuse_def Let_def split: sum.splits prod.splits)

lemma fused_keys:
  "map fst (map (\<lambda>(pid, s). (pid, s, g pid)) xs) = map fst xs"
  by (induction xs) auto

lemma fused_neg_scores:
  "map (\<lambda>x. - fst (snd x)) (map (\<lambda>(pid, s). (pid, s, g pid)) xs) = map (\<lambda>x. - snd x) xs"
  by (induction xs) auto

lemma distinct_keys_sort_key:
  "distinct (map fst xs) \<Longrightarrow> distinct (map fst (sort_key f xs))"
  by (simp add: distinct_map)

lemma rrf_fuse_sorted:
  assumes "rrf_fuse dense keyword k = Inr fused"
  shows "sorted (map (\<lambda>x. - fst (snd x)) fused)"
proof -
  from assms obtain sc pl where
    f: "fused = map (\<lambda>(pid, s). (pid, s, dict_get pl pid [])) (sort_key (\<lambda>x. - snd x) sc)"
    by (rule rrf_fuse_InrD)
  show ?thesis unfolding f fused_neg_scores by (rule sorted_sort_key)
qed

lemma rrf_fuse_scores_distinct:
  assumes "add k 1 dense ([], []) = Inr (sc0, pl0)" "add k 1 keyword (sc0, pl0) = Inr (sc, pl)"
  shows "distinct (map fst sc)" "fst ` set sc = pid_of ` set dense \<union> pid_of ` set keyword"
proof -
  from add_distinct [OF assms(1)] have "distinct (map fst sc0)" by simp
  with add_distinct [OF assms(2)] show "distinct (map fst sc)" by simp
  from add_keys [OF assms(1)] add_keys [OF assms(2)]
  show "fst ` set sc = pid_of ` set dense \<union> pid_of ` set keyword" by simp
qed

lemma rrf_fuse_distinct:
  assumes "rrf_fuse dense keyword k = Inr fused"
  shows "distinct (map fst fused)"
proof -
  from assms obtain sc0 pl0 sc pl where
    a0: "add k 1 dense ([], []) = Inr (sc0, pl0)" and
    a1: "add k 1 keyword (sc0, pl0) = Inr (sc, pl)" and
    f: "fused = map (\<lambda>(pid, s). (pid, s, dict_get pl pid [])) (sort_key (\<lambda>x. - snd x) sc)"
    by (rule rrf_fuse_InrD)
  from rrf_fuse_scores_distinct(1) [OF a0 a1]
  have "distinct (map fst (sort_key (\<lambda>x. - snd x) sc))" by (rule distinct_keys_sort_key)
  then show ?thesis unfolding f fused_keys .
qed

lemma rrf_fuse_lookup:
  assumes "rrf_fuse dense keyword k = Inr fused"
    and "pid \<in> pid_of ` set dense \<union> pid_of ` set keyword"
  obtains p where
    "map_of fused pid = Some (leg_sum k 1 dense pid + leg_sum k 1 keyword pid, p)"
    "\<And>sc0 pl0 sc pl. add k 1 dense ([], []) = Inr (sc0, pl0)
       \<Longrightarrow> add k 1 keyword (sc0, pl0) = Inr (sc, pl) \<Longrightarrow> p = dict_get pl pid []"
proof -
  from assms(1) obtain sc0 pl0 sc pl where
    a0: "add k 1 dense ([], []) = Inr (sc0, pl0)" and
    a1: "add k 1 keyword (sc0, pl0) = Inr (sc, pl)" and
    f: "fused = map (\<lambda>(pid, s). (pid, s, dict_get pl pid [])) (sort_key (\<lambda>x. - snd x) sc)"
    by (rule rrf_fuse_InrD)
  note d = rrf_fuse_scores_distinct [OF a0 a1]
  from assms(2) d(2) have "pid \<in> fst ` set sc" by simp
  then obtain s where s: "(pid, s) \<in> set sc" by auto
  with d(1) have "map_of sc pid = Some s" by simp
  then have "dict_get sc pid 0 = s" by (simp add: dict_get_def)
  moreover have "dict_get sc pid 0 = leg_sum k 1 dense pid + leg_sum k 1 keyword pid"
    using add_scores [OF a0, of pid] add_scores [OF a1, of pid] by (simp add: dict_get_def)
  ultimately have s_eq: "s = leg_sum k 1 dense pid + leg_sum k 1 keyword pid" by simp
  from s have "(pid, s, dict_get pl pid []) \<in> set fused"
    unfolding f by force
  with rrf_fuse_distinct [OF assms(1)]
  have m: "map_of fused pid = Some (s, dict_get pl pid [])" by simp
  show ?thesis
  proof (rule that [of "dict_get pl pid []"])
    show "map_of fused pid = Some (leg_sum k 1 dense pid + leg_sum k 1 keyword pid, dict_get pl pid [])"
      using m s_eq by simp
  next
    fix sc0' pl0' sc' pl'
    assume "add k 1 dense ([], []) = Inr (sc0', pl0')" "add k 1 keyword (sc0', pl0') = Inr (sc', pl')"
    with a0 a1 show "dict_get pl pid [] = dict_get pl' pid []" by simp
  qed
qed

lemma rrf_fuse_score:
  assumes "rrf_fuse dense keyword k = Inr fused"
    and "pid \<in> pid_of ` set dense \<union> pid_of ` set keyword"
  shows "score_of fused pid = Some (leg_sum k 1 dense pid + leg_sum k 1 keyword pid)"
  using rrf_fuse_lookup [OF assms] by (metis fst_conv option.simps(9) score_of_def)

lemma recip_strict:
  fixes a b :: int
  assumes "a < b" and nz: "\<forall>j. a \<le> j \<and> j \<le> b \<longrightarrow> j \<noteq> 0"
  shows "(1::rat) / of_int b < 1 / of_int a"
proof -
  from nz assms(1) have "a \<noteq> 0" "b \<noteq> 0" by auto
  show ?thesis
  proof (cases "0 < a")
    case True
    with assms(1) have "0 < b" by simp
    with True assms(1) show ?thesis by (simp add: field_simps)
  next
    case False
    with \<open>a \<noteq> 0\<close> have a: "a < 0" by simp
    have "b < 0"
    proof (rule ccontr)
      assume "\<not> b < 0"
      with a have "a \<le> 0 \<and> 0 \<le> b" by simp
      with nz show False by blast
    qed
    with a assms(1) show ?thesis by (simp add: field_simps)
  qed
qed

lemma rrf_fuse_returns:
  "(\<exists>fused. rrf_fuse dense keyword k = Inr fused)
   \<longleftrightarrow> (\<forall>i < length dense. k + 1 + int i \<noteq> 0) \<and> (\<forall>i < length keyword. k + 1 + int i \<noteq> 0)"
proof -
  have "(\<exists>fused. rrf_fuse dense keyword k = Inr fused)
    \<longleftrightarrow> (\<exists>st. add k 1 dense ([], []) = Inr st \<and> (\<exists>st'. add k 1 keyword st = Inr st'))"
    by (auto simp: rrf_fuse_def Let_def split: sum.splits prod.splits)
  also have "\<dots> \<longleftrightarrow> (\<exists>st. add k 1 dense ([], []) = Inr st) \<and> (\<forall>i < length keyword. k + 1 + int i \<noteq> 0)"
    using add_returns [of k 1 keyword] by auto
  finally show ?thesis
    using add_returns [of k 1 dense "([], [])"] by simp
qed

lemma rrf_fuse_total: "0 \<le> k \<Longrightarrow> \<exists>fused. rrf_fuse dense keyword k = Inr fused"
  unfolding rrf_fuse_returns by auto

lemma rank_nonzero:
  assumes "\<forall>i < length leg. k + 1 + int i \<noteq> 0" "1 \<le> j" "j \<le> int (length leg)"
  shows "k + j \<noteq> 0"
proof -
  from assms(2,3) have "nat (j - 1) < length leg" by auto
  with assms(1) have "k + 1 + int (nat (j - 1)) \<noteq> 0" by blast
  with assms(2) show ?thesis by simp
qed

lemma leg_sum_ranks_from:
  "leg_sum k (int r) leg pid = (\<Sum>j \<leftarrow> ranks_from r leg pid. 1 / of_int (k + int j))"
proof (induction leg arbitrary: r)
  case Nil
  show ?case by simp
next
  case (Cons sp leg)
  have "leg_sum k (int r + 1) leg pid = leg_sum k (int (Suc r)) leg pid"
    by (simp add: add.commute)
  with Cons [of "Suc r"] show ?case by simp
qed

lemma leg_sum_contribution: "leg_sum k 1 leg pid = leg_contribution k leg pid"
  using leg_sum_ranks_from [of k 1 leg pid] by (simp add: leg_contribution_def ranks_in_def)

lemma ranks_from_bounds: "j \<in> set (ranks_from r leg pid) \<Longrightarrow> r \<le> j \<and> j < r + length leg"
proof (induction leg arbitrary: r)
  case Nil
  then show ?case by simp
next
  case (Cons sp leg)
  from Cons.prems consider "j = r" | "j \<in> set (ranks_from (Suc r) leg pid)"
    by (auto split: if_splits)
  then show ?case
  proof cases
    case 1
    then show ?thesis by simp
  next
    case 2
    from Cons.IH [OF this] show ?thesis by simp
  qed
qed

lemma ranks_from_mem: "ranks_from r leg pid \<noteq> [] \<Longrightarrow> pid \<in> pid_of ` set leg"
  by (induction leg arbitrary: r) (auto split: if_splits)

lemma contribution_single: "ranks_in leg pid = [r] \<Longrightarrow> leg_contribution k leg pid = 1 / of_int (k + int r)"
  by (simp add: leg_contribution_def)

lemma contribution_absent: "ranks_in leg pid = [] \<Longrightarrow> leg_contribution k leg pid = 0"
  by (simp add: leg_contribution_def)

lemma contribution_strict:
  assumes ok: "\<forall>i < length leg. k + 1 + int i \<noteq> 0"
    and x: "ranks_in leg X = [rx]" and y: "ranks_in leg Y = [ry]" and lt: "rx < ry"
  shows "leg_contribution k leg Y < leg_contribution k leg X"
proof -
  from x have "rx \<in> set (ranks_from 1 leg X)" by (simp add: ranks_in_def)
  from ranks_from_bounds [OF this] have bx: "1 \<le> rx" by simp
  from y have "ry \<in> set (ranks_from 1 leg Y)" by (simp add: ranks_in_def)
  from ranks_from_bounds [OF this] have by': "ry \<le> length leg" by simp
  have "\<forall>j. k + int rx \<le> j \<and> j \<le> k + int ry \<longrightarrow> j \<noteq> 0"
  proof (intro allI impI)
    fix j assume j: "k + int rx \<le> j \<and> j \<le> k + int ry"
    with bx by' have "1 \<le> j - k" "j - k \<le> int (length leg)" by auto
    from rank_nonzero [OF ok this] show "j \<noteq> 0" by simp
  qed
  moreover from lt have "k + int rx < k + int ry" by simp
  ultimately have "(1::rat) / of_int (k + int ry) < 1 / of_int (k + int rx)"
    by (rule recip_strict [rotated])
  with x y show ?thesis by (simp add: contribution_single)
qed

lemma map_filter_Cons:
  "List.map_filter f (x # xs) = (case f x of None \<Rightarrow> List.map_filter f xs | Some y \<Rightarrow> y # List.map_filter f xs)"
  by (simp add: List.map_filter_def split: option.splits)

lemma payloads_for_Cons:
  "payloads_for (sp # leg) pid =
     (if pid_of sp = pid then (case sp_payload sp of None \<Rightarrow> [] | Some p \<Rightarrow> [p]) else [])
     @ payloads_for leg pid"
  by (simp add: payloads_for_def map_filter_Cons split: option.splits)

lemma add_payloads:
  "add k r leg (sc, pl) = Inr (sc', pl')
   \<Longrightarrow> map_of pl' pid =
       (if payloads_for leg pid = [] then map_of pl pid else Some (last (payloads_for leg pid)))"
proof (induction leg arbitrary: r sc pl)
  case Nil
  then show ?case by (simp add: payloads_for_def List.map_filter_def)
next
  case (Cons sp leg)
  from Cons.prems have nz: "k + r \<noteq> 0" by (auto split: if_splits)
  define sc1 where "sc1 = AList.update (pid_of sp) (dict_get sc (pid_of sp) 0 + 1 / of_int (k + r)) sc"
  define pl1 where "pl1 = (case sp_payload sp of None \<Rightarrow> pl | Some p \<Rightarrow> AList.update (pid_of sp) p pl)"
  from Cons.prems nz have step: "add k (r + 1) leg (sc1, pl1) = Inr (sc', pl')"
    by (simp add: Let_def sc1_def pl1_def)
  note IH = Cons.IH [OF step]
  have pl1_pid: "map_of pl1 pid =
      (if pid_of sp = pid then (case sp_payload sp of None \<Rightarrow> map_of pl pid | Some p \<Rightarrow> Some p)
       else map_of pl pid)"
    by (simp add: pl1_def update_conv' split: option.splits)
  show ?case
  proof (cases "payloads_for leg pid = []")
    case True
    with IH pl1_pid show ?thesis
      by (simp add: payloads_for_Cons split: option.splits)
  next
    case False
    with IH show ?thesis
      by (simp add: payloads_for_Cons)
  qed
qed

lemma payloads_for_mem: "payloads_for leg pid \<noteq> [] \<Longrightarrow> pid \<in> pid_of ` set leg"
  by (induction leg) (auto simp: payloads_for_Cons payloads_for_def List.map_filter_def split: if_splits)

lemma sorted_map_before:
  fixes f :: "'a \<Rightarrow> 'b::linorder"
  assumes "sorted (map f xs)" "i < length xs" "j < length xs" "f (xs ! i) < f (xs ! j)"
  shows "i < j"
proof (rule ccontr)
  assume "\<not> i < j"
  then have "j \<le> i" by simp
  moreover from assms(2) have "i < length (map f xs)" by simp
  ultimately have "map f xs ! j \<le> map f xs ! i"
    using assms(1) by (rule sorted_nth_mono [rotated 1, of j i "map f xs"])
  with assms(2,3) have "f (xs ! j) \<le> f (xs ! i)" by simp
  with assms(4) show False by simp
qed

lemma score_of_nth:
  assumes "score_of fused pid = Some s"
  obtains i where "i < length fused" "fst (fused ! i) = pid" "fst (snd (fused ! i)) = s"
proof -
  from assms obtain p where "map_of fused pid = Some (s, p)"
    unfolding score_of_def by (cases "map_of fused pid") auto
  then have "(pid, s, p) \<in> set fused" by (rule map_of_SomeD)
  then obtain i where "i < length fused" "fused ! i = (pid, s, p)"
    unfolding in_set_conv_nth by blast
  then show ?thesis by (intro that [of i]) simp_all
qed

lemma rrf_fuse_order:
  assumes f: "rrf_fuse dense keyword k = Inr fused"
    and a: "score_of fused A = Some sa" and b: "score_of fused B = Some sb" and lt: "sb < sa"
  shows "\<exists>i j. i < j \<and> j < length fused \<and> fst (fused ! i) = A \<and> fst (fused ! j) = B"
proof -
  from a obtain i where i: "i < length fused" "fst (fused ! i) = A" "fst (snd (fused ! i)) = sa"
    by (rule score_of_nth)
  from b obtain j where j: "j < length fused" "fst (fused ! j) = B" "fst (snd (fused ! j)) = sb"
    by (rule score_of_nth)
  have srt: "sorted (map (\<lambda>x. - fst (snd x)) fused)" using f by (rule rrf_fuse_sorted)
  from lt i(3) j(3) have "- fst (snd (fused ! i)) < - fst (snd (fused ! j))" by simp
  with srt i(1) j(1) have "i < j" by (rule sorted_map_before)
  with i j show ?thesis by blast
qed

lemma update_fresh: "a \<notin> fst ` set al \<Longrightarrow> AList.update a v al = al @ [(a, v)]"
  by (induction al) auto

lemma dict_get_fresh: "a \<notin> fst ` set al \<Longrightarrow> dict_get al a dflt = dflt"
  by (simp add: dict_get_def map_of_eq_None_iff [THEN iffD2])

lemma add_fresh:
  "distinct (map pid_of leg) \<Longrightarrow> pid_of ` set leg \<inter> fst ` set sc = {}
   \<Longrightarrow> add k r leg (sc, pl) = Inr (sc', pl') \<Longrightarrow> sc' = sc @ leg_scores k r leg"
proof (induction leg arbitrary: r sc pl)
  case Nil
  then show ?case by simp
next
  case (Cons sp leg)
  from Cons.prems(3) have nz: "k + r \<noteq> 0" by (auto split: if_splits)
  from Cons.prems(2) have fresh: "pid_of sp \<notin> fst ` set sc" by auto
  define sc1 where "sc1 = sc @ [(pid_of sp, 1 / of_int (k + r) :: rat)]"
  define pl1 where "pl1 = (case sp_payload sp of None \<Rightarrow> pl | Some p \<Rightarrow> AList.update (pid_of sp) p pl)"
  have "AList.update (pid_of sp) (dict_get sc (pid_of sp) 0 + 1 / of_int (k + r)) sc = sc1"
    using fresh by (simp add: update_fresh dict_get_fresh sc1_def)
  with Cons.prems(3) nz have step: "add k (r + 1) leg (sc1, pl1) = Inr (sc', pl')"
    by (simp add: Let_def pl1_def)
  from Cons.prems(1) have d: "distinct (map pid_of leg)" and "pid_of sp \<notin> pid_of ` set leg" by auto
  with Cons.prems(2) have "pid_of ` set leg \<inter> fst ` set sc1 = {}"
    by (auto simp: sc1_def)
  from Cons.IH [OF d this step] show ?case by (simp add: sc1_def)
qed

lemma leg_scores_keys: "map fst (leg_scores k r leg) = map pid_of leg"
  by (induction leg arbitrary: r) auto

lemma leg_scores_snd:
  "y \<in> set (leg_scores k r leg) \<Longrightarrow> \<exists>i < length leg. snd y = 1 / of_int (k + r + int i)"
proof (induction leg arbitrary: r)
  case Nil
  then show ?case by simp
next
  case (Cons sp leg)
  from Cons.prems consider "y = (pid_of sp, 1 / of_int (k + r))" | "y \<in> set (leg_scores k (r + 1) leg)"
    by auto
  then show ?case
  proof cases
    case 1
    then show ?thesis by (intro exI [of _ 0]) simp
  next
    case 2
    from Cons.IH [OF this] obtain i where "i < length leg" "snd y = 1 / of_int (k + (r + 1) + int i)"
      by blast
    then show ?thesis by (intro exI [of _ "Suc i"]) (simp add: algebra_simps)
  qed
qed

lemma leg_scores_sorted:
  "\<forall>i < length leg. k + r + int i \<noteq> 0 \<Longrightarrow> sorted (map (\<lambda>x. - snd x) (leg_scores k r leg))"
proof (induction leg arbitrary: r)
  case Nil
  show ?case by simp
next
  case (Cons sp leg)
  have tl_ok: "\<forall>i < length leg. k + (r + 1) + int i \<noteq> 0"
  proof (intro allI impI)
    fix i assume "i < length leg"
    then have "Suc i < length (sp # leg)" by simp
    with Cons.prems have "k + r + int (Suc i) \<noteq> 0" by blast
    then show "k + (r + 1) + int i \<noteq> 0" by (simp add: algebra_simps)
  qed
  have hd_le: "- (1 / of_int (k + r)) \<le> - snd y" if y: "y \<in> set (leg_scores k (r + 1) leg)" for y
  proof -
    from leg_scores_snd [OF y] obtain i where i: "i < length leg"
      and sy: "snd y = 1 / of_int (k + (r + 1) + int i)" by blast
    have "\<forall>j. k + r \<le> j \<and> j \<le> k + (r + 1) + int i \<longrightarrow> j \<noteq> 0"
    proof (intro allI impI)
      fix j assume j: "k + r \<le> j \<and> j \<le> k + (r + 1) + int i"
      then have "nat (j - (k + r)) < length (sp # leg)" using i by auto
      with Cons.prems have "k + r + int (nat (j - (k + r))) \<noteq> 0" by blast
      with j show "j \<noteq> 0" by simp
    qed
    moreover have "k + r < k + (r + 1) + int i" by simp
    ultimately have "(1::rat) / of_int (k + (r + 1) + int i) < 1 / of_int (k + r)"
      by (rule recip_strict [rotated])
    with sy show ?thesis by simp
  qed
  from Cons.IH [OF tl_ok] hd_le show ?case by auto
qed

lemma rrf_fuse_single_leg:
  assumes d: "distinct (map pid_of leg)"
    and a: "add k 1 leg ([], []) = Inr (sc, pl)"
  shows "map fst (map (\<lambda>(pid, s). (pid, s, dict_get pl pid [])) (sort_key (\<lambda>x. - snd x) sc))
         = map pid_of leg"
proof -
  from add_fresh [OF d _ a] have sc: "sc = leg_scores k 1 leg" by simp
  from a have "\<exists>st. add k 1 leg ([], []) = Inr st" by blast
  then have "\<forall>i < length leg. k + 1 + int i \<noteq> 0" unfolding add_returns .
  then have "sorted (map (\<lambda>x. - snd x) sc)" unfolding sc by (rule leg_scores_sorted)
  then have "sort_key (\<lambda>x. - snd x) sc = sc" by (rule sort_key_id_if_sorted)
  then show ?thesis unfolding fused_keys by (simp add: sc leg_scores_keys)
qed

lemma rrf_fuse_dense_only:
  assumes "distinct (map pid_of leg)" "rrf_fuse leg [] k = Inr fused"
  shows "map fst fused = map pid_of leg"
proof -
  from assms(2) obtain sc0 pl0 sc pl where
    a0: "add k 1 leg ([], []) = Inr (sc0, pl0)" and
    a1: "add k 1 [] (sc0, pl0) = Inr (sc, pl)" and
    f: "fused = map (\<lambda>(pid, s). (pid, s, dict_get pl pid [])) (sort_key (\<lambda>x. - snd x) sc)"
    by (rule rrf_fuse_InrD)
  from a1 have "sc = sc0" "pl = pl0" by simp_all
  with a0 have "add k 1 leg ([], []) = Inr (sc, pl)" by simp
  from rrf_fuse_single_leg [OF assms(1) this] f show ?thesis by simp
qed

lemma rrf_fuse_keyword_only:
  assumes "distinct (map pid_of leg)" "rrf_fuse [] leg k = Inr fused"
  shows "map fst fused = map pid_of leg"
proof -
  from assms(2) obtain sc0 pl0 sc pl where
    a0: "add k 1 [] ([], []) = Inr (sc0, pl0)" and
    a1: "add k 1 leg (sc0, pl0) = Inr (sc, pl)" and
    f: "fused = map (\<lambda>(pid, s). (pid, s, dict_get pl pid [])) (sort_key (\<lambda>x. - snd x) sc)"
    by (rule rrf_fuse_InrD)
  from a0 have "sc0 = []" "pl0 = []" by simp_all
  with a1 have "add k 1 leg ([], []) = Inr (sc, pl)" by simp
  from rrf_fuse_single_leg [OF assms(1) this] f show ?thesis by simp
qed

lemma py_prefix_map: "py_prefix n (map f xs) = map f (py_prefix n xs)"
  by (simp add: py_prefix_def take_map)

lemma search_hybrid_ids:
  assumes "search_hybrid search_dense scroll k query limit = Inr out"
  obtains fused where
    "rrf_fuse (search_dense query limit) (search_keyword scroll query limit) k = Inr fused"
    "map (\<lambda>d. map_of d ''_id'') out = map (Some \<circ> RecordId) (py_prefix limit (map fst fused))"
proof -
  from assms obtain fused where
    f: "rrf_fuse (search_dense query limit) (search_keyword scroll query limit) k = Inr fused"
    and out: "out = map (\<lambda>(pid, score, payload).
                         AList.update ''_id'' (RecordId pid)
                           (AList.update ''_hybrid_score'' (HybridScore score)
                              (map (\<lambda>(key, v). (key, Payload v)) payload)))
                    (py_prefix limit fused)"
    by (auto simp: search_hybrid_def Let_def split: sum.splits)
  have "map (\<lambda>d. map_of d ''_id'') out = map (Some \<circ> RecordId) (map fst (py_prefix limit fused))"
    unfolding out by (simp add: update_conv' case_prod_beta)
  then show ?thesis using f by (intro that [of fused]) (simp_all add: py_prefix_map)
qed

section \<open>Theorems about the fusion\<close>

text \<open>
  Claim C1, as the code has it: when the same record id appears in both legs and both legs
  carry a payload for it, the payload attached to the fused result is the payload from the
  leg that is processed last, the keyword leg (the last payload that leg carries for the
  id): \<^verbatim>\<open>add\<close> overwrites the stored payload with every payload it sees that is not
  \<^verbatim>\<open>None\<close>.
\<close>

theorem rrf_payload_keyword_leg:
  assumes "rrf_fuse dense keyword k = Inr fused"
    and "payloads_for dense pid \<noteq> []" and "payloads_for keyword pid \<noteq> []"
  shows "payload_of fused pid = Some (last (payloads_for keyword pid))"
proof -
  from assms(1) obtain sc0 pl0 sc pl where
    a0: "add k 1 dense ([], []) = Inr (sc0, pl0)" and
    a1: "add k 1 keyword (sc0, pl0) = Inr (sc, pl)"
    by (rule rrf_fuse_InrD)
  from assms(3) have mem: "pid \<in> pid_of ` set dense \<union> pid_of ` set keyword"
    using payloads_for_mem by blast
  from add_payloads [OF a1, of pid] assms(3)
  have "map_of pl pid = Some (last (payloads_for keyword pid))" by simp
  then have g: "dict_get pl pid [] = last (payloads_for keyword pid)" by (simp add: dict_get_def)
  from rrf_fuse_lookup [OF assms(1) mem] obtain p where
    m: "map_of fused pid = Some (leg_sum k 1 dense pid + leg_sum k 1 keyword pid, p)"
    and p: "\<And>sc0 pl0 sc pl. add k 1 dense ([], []) = Inr (sc0, pl0)
       \<Longrightarrow> add k 1 keyword (sc0, pl0) = Inr (sc, pl) \<Longrightarrow> p = dict_get pl pid []"
    by blast
  from p [OF a0 a1] g have "p = last (payloads_for keyword pid)" by simp
  with m show ?thesis by (simp add: payload_of_def)
qed

theorem rrf_payload_keyword_leg_witness:
  "payloads_for ex_dense ''A'' = [[(''leg'', ''dense'')]]
   \<and> payloads_for ex_keyword ''A'' = [[(''leg'', ''keyword'')]]
   \<and> rrf_fuse ex_dense ex_keyword 60 =
     Inr [(''A'', 1 / 61 + 1 / 63, [(''leg'', ''keyword'')]), (''C'', 1 / 63 + 1 / 62, [(''name'', ''c'')]),
          (''D'', 1 / 61, []), (''17'', 1 / 62, [(''name'', ''b'')])]
   \<and> payload_of [(''A'', 1 / 61 + 1 / 63, [(''leg'', ''keyword'')]), (''C'', 1 / 63 + 1 / 62, [(''name'', ''c'')]),
          (''D'', 1 / 61, []), (''17'', 1 / 62, [(''name'', ''b'')])] ''A'' = Some [(''leg'', ''keyword'')]"
proof -
  have f: "rrf_fuse ex_dense ex_keyword 60 =
     Inr [(''A'', 1 / 61 + 1 / 63, [(''leg'', ''keyword'')]), (''C'', 1 / 63 + 1 / 62, [(''name'', ''c'')]),
          (''D'', 1 / 61, []), (''17'', 1 / 62, [(''name'', ''b'')])]"
    by (simp add: rrf_ex)
  have d: "payloads_for ex_dense ''A'' = [[(''leg'', ''dense'')]]"
    and k: "payloads_for ex_keyword ''A'' = [[(''leg'', ''keyword'')]]"
    by (simp_all add: rrf_ex)
  have "payload_of [(''A'', 1 / 61 + 1 / 63, [(''leg'', ''keyword'')]), (''C'', 1 / 63 + 1 / 62, [(''name'', ''c'')]),
          (''D'', 1 / 61, []), (''17'', 1 / 62, [(''name'', ''b'')])] ''A''
        = Some (last (payloads_for ex_keyword ''A''))"
    by (rule rrf_payload_keyword_leg [OF f]) (simp_all add: d k)
  with f d k show ?thesis by simp
qed

text \<open>
  Claim C1 as stated (the payload of the dense leg wins) fails on a record that both legs
  return with different payloads: the fused result carries the keyword leg's payload.
\<close>

theorem rrf_payload_first_leg_counterexample:
  "rrf_fuse [\<lparr>sp_id = StrId ''A'', sp_payload = Some [(''leg'', ''dense'')]\<rparr>]
            [\<lparr>sp_id = StrId ''A'', sp_payload = Some [(''leg'', ''keyword'')]\<rparr>] 60
     = Inr [(''A'', 1 / 61 + 1 / 61, [(''leg'', ''keyword'')])]
   \<and> payload_of [(''A'', 1 / 61 + 1 / 61 :: rat, [(''leg'', ''keyword'')])] ''A''
       \<noteq> Some [(''leg'', ''dense'')]"
  by (simp add: rrf_ex)

text \<open>
  Claim C4: the fusion returns for every \<open>k \<ge> 0\<close>, and whenever it returns, the fused
  score of every record is the sum of its contributions across both legs, where a leg
  contributes exactly \<open>1 / (k + r)\<close> for a record at the 1-based rank \<open>r\<close> and 0 for a
  record it does not have. With \<open>k = 60\<close>, a record \<open>A\<close> at dense rank 1 and keyword rank 3
  has the score \<open>1/61 + 1/63\<close>, a record \<open>B\<close> at dense rank 2 that the keyword leg does not
  have has the score \<open>1/62\<close>, and \<open>A\<close> stands before \<open>B\<close> in the fused list.
\<close>

theorem rrf_scores:
  "(0 \<le> k \<longrightarrow> (\<exists>fused. rrf_fuse dense keyword k = Inr fused))
   \<and> (ranks_in leg pid = [r] \<longrightarrow> leg_contribution k leg pid = 1 / of_int (k + int r))
   \<and> (ranks_in leg pid = [] \<longrightarrow> leg_contribution k leg pid = 0)
   \<and> (\<forall>fused. rrf_fuse dense keyword k = Inr fused \<longrightarrow>
        (\<forall>pid \<in> pid_of ` set dense \<union> pid_of ` set keyword.
           score_of fused pid = Some (leg_contribution k dense pid + leg_contribution k keyword pid))
        \<and> (k = 60 \<and> ranks_in dense A = [1] \<and> ranks_in keyword A = [3]
             \<and> ranks_in dense B = [2] \<and> ranks_in keyword B = []
           \<longrightarrow> score_of fused A = Some (1 / 61 + 1 / 63)
             \<and> score_of fused B = Some (1 / 62)
             \<and> (\<exists>i j. i < j \<and> j < length fused \<and> fst (fused ! i) = A \<and> fst (fused ! j) = B)))"
proof (intro conjI allI impI ballI)
  assume "0 \<le> k"
  then show "\<exists>fused. rrf_fuse dense keyword k = Inr fused" by (rule rrf_fuse_total)
next
  assume "ranks_in leg pid = [r]"
  then show "leg_contribution k leg pid = 1 / of_int (k + int r)" by (rule contribution_single)
next
  assume "ranks_in leg pid = []"
  then show "leg_contribution k leg pid = 0" by (rule contribution_absent)
next
  fix fused pid
  assume "rrf_fuse dense keyword k = Inr fused" "pid \<in> pid_of ` set dense \<union> pid_of ` set keyword"
  then show "score_of fused pid = Some (leg_contribution k dense pid + leg_contribution k keyword pid)"
    using rrf_fuse_score [of dense keyword k fused pid]
    by (simp only: leg_sum_contribution)
next
  fix fused
  assume f: "rrf_fuse dense keyword k = Inr fused"
    and ex: "k = 60 \<and> ranks_in dense A = [1] \<and> ranks_in keyword A = [3]
             \<and> ranks_in dense B = [2] \<and> ranks_in keyword B = []"
  from ex have k: "k = 60" and ra: "ranks_in dense A = [1]" "ranks_in keyword A = [3]"
    and rb: "ranks_in dense B = [2]" "ranks_in keyword B = []" by blast+
  from ra(1) rb(1) have mem: "A \<in> pid_of ` set dense" "B \<in> pid_of ` set dense"
    using ranks_from_mem [of 1 dense] by (simp_all add: ranks_in_def)
  have ca: "leg_contribution k dense A = 1 / 61" "leg_contribution k keyword A = 1 / 63"
    unfolding leg_contribution_def ra k by simp_all
  have cb: "leg_contribution k dense B = 1 / 62" "leg_contribution k keyword B = 0"
    unfolding leg_contribution_def rb k by simp_all
  have "score_of fused A = Some (leg_sum k 1 dense A + leg_sum k 1 keyword A)"
    using f mem(1) by (intro rrf_fuse_score) blast+
  then have sa: "score_of fused A = Some (1 / 61 + 1 / 63)"
    unfolding leg_sum_contribution ca .
  have "score_of fused B = Some (leg_sum k 1 dense B + leg_sum k 1 keyword B)"
    using f mem(2) by (intro rrf_fuse_score) blast+
  then have sb: "score_of fused B = Some (1 / 62)"
    unfolding leg_sum_contribution cb by simp
  show "score_of fused A = Some (1 / 61 + 1 / 63)" by (rule sa)
  show "score_of fused B = Some (1 / 62)" by (rule sb)
  show "\<exists>i j. i < j \<and> j < length fused \<and> fst (fused ! i) = A \<and> fst (fused ! j) = B"
    by (rule rrf_fuse_order [OF f sa sb]) simp
qed

theorem rrf_scores_witness:
  "ranks_in ex_dense ''A'' = [1] \<and> ranks_in ex_keyword ''A'' = [3]
   \<and> ranks_in ex_dense ''17'' = [2] \<and> ranks_in ex_keyword ''17'' = []
   \<and> leg_contribution 60 ex_dense ''A'' = 1 / 61 \<and> leg_contribution 60 ex_keyword ''17'' = 0
   \<and> (\<exists>fused. rrf_fuse ex_dense ex_keyword 60 = Inr fused
        \<and> score_of fused ''A'' = Some (1 / 61 + 1 / 63)
        \<and> score_of fused ''17'' = Some (1 / 62)
        \<and> score_of fused ''C'' = Some (leg_contribution 60 ex_dense ''C'' + leg_contribution 60 ex_keyword ''C'')
        \<and> (\<exists>i j. i < j \<and> j < length fused \<and> fst (fused ! i) = ''A'' \<and> fst (fused ! j) = ''17''))"
proof -
  have r: "ranks_in ex_dense ''A'' = [1]" "ranks_in ex_keyword ''A'' = [3]"
    "ranks_in ex_dense ''17'' = [2]" "ranks_in ex_keyword ''17'' = []"
    by (simp_all add: rrf_ex)
  have c: "''C'' \<in> pid_of ` set ex_dense \<union> pid_of ` set ex_keyword"
    by (simp add: rrf_ex)
  note main = rrf_scores [of 60 ex_dense ex_keyword ex_dense "''A''" 1 "''A''" "''17''"]
  from main obtain fused where f: "rrf_fuse ex_dense ex_keyword 60 = Inr fused" by auto
  from main f r have "score_of fused ''A'' = Some (1 / 61 + 1 / 63)"
    "score_of fused ''17'' = Some (1 / 62)"
    "\<exists>i j. i < j \<and> j < length fused \<and> fst (fused ! i) = ''A'' \<and> fst (fused ! j) = ''17''"
    by blast+
  moreover from main f c
  have "score_of fused ''C'' = Some (leg_contribution 60 ex_dense ''C'' + leg_contribution 60 ex_keyword ''C'')"
    by blast
  moreover from main r(1)
  have "leg_contribution 60 ex_dense ''A'' = 1 / 61" by simp
  moreover from rrf_scores [of 60 ex_dense ex_keyword ex_keyword "''17''" 0 "''A''" "''17''"] r(4)
  have "leg_contribution 60 ex_keyword ''17'' = 0" by simp
  ultimately show ?thesis using f r by blast
qed

text \<open>
  Claim C5: for every \<open>k\<close> and every two records \<open>X\<close> and \<open>Y\<close> that each have a rank in
  both legs, if the rank of \<open>X\<close> is strictly smaller than the rank of \<open>Y\<close> in the dense leg
  and in the keyword leg, then the fused score of \<open>X\<close> is strictly greater than that of
  \<open>Y\<close>, whenever the fusion returns; and it returns for every \<open>k \<ge> 0\<close>. (For a negative
  \<open>k\<close> the division raises when some \<open>k + r\<close> is 0, and there are no scores then.)
\<close>

theorem rrf_monotone:
  "ranks_in dense X = [dx] \<Longrightarrow> ranks_in dense Y = [dy]
   \<Longrightarrow> ranks_in keyword X = [kx] \<Longrightarrow> ranks_in keyword Y = [ky]
   \<Longrightarrow> dx < dy \<Longrightarrow> kx < ky
   \<Longrightarrow> (0 \<le> k \<longrightarrow> (\<exists>fused. rrf_fuse dense keyword k = Inr fused))
     \<and> (\<forall>fused. rrf_fuse dense keyword k = Inr fused
          \<longrightarrow> (\<exists>sx sy. score_of fused X = Some sx \<and> score_of fused Y = Some sy \<and> sy < sx))"
proof (intro conjI allI impI)
  assume "0 \<le> k"
  then show "\<exists>fused. rrf_fuse dense keyword k = Inr fused" by (rule rrf_fuse_total)
next
  fix fused
  assume r: "ranks_in dense X = [dx]" "ranks_in dense Y = [dy]"
      "ranks_in keyword X = [kx]" "ranks_in keyword Y = [ky]"
    and lt: "dx < dy" "kx < ky"
    and f: "rrf_fuse dense keyword k = Inr fused"
  from f have "\<exists>fused. rrf_fuse dense keyword k = Inr fused" by blast
  then have ok: "\<forall>i < length dense. k + 1 + int i \<noteq> 0" "\<forall>i < length keyword. k + 1 + int i \<noteq> 0"
    unfolding rrf_fuse_returns by simp_all
  from r(1,2) have mem: "X \<in> pid_of ` set dense" "Y \<in> pid_of ` set dense"
    using ranks_from_mem [of 1 dense] by (simp_all add: ranks_in_def)
  have sx: "score_of fused X = Some (leg_contribution k dense X + leg_contribution k keyword X)"
    using rrf_fuse_score [OF f, of X] mem by (simp add: leg_sum_contribution)
  have sy: "score_of fused Y = Some (leg_contribution k dense Y + leg_contribution k keyword Y)"
    using rrf_fuse_score [OF f, of Y] mem by (simp add: leg_sum_contribution)
  have "leg_contribution k dense Y < leg_contribution k dense X"
    using ok(1) r(1,2) lt(1) by (rule contribution_strict)
  moreover have "leg_contribution k keyword Y < leg_contribution k keyword X"
    using ok(2) r(3,4) lt(2) by (rule contribution_strict)
  ultimately have "leg_contribution k dense Y + leg_contribution k keyword Y
      < leg_contribution k dense X + leg_contribution k keyword X"
    by (rule add_strict_mono)
  with sx sy show "\<exists>sx sy. score_of fused X = Some sx \<and> score_of fused Y = Some sy \<and> sy < sx"
    by blast
qed

theorem rrf_monotone_witness:
  "ranks_in ex_dense ''A'' = [1] \<and> ranks_in ex_dense ''C'' = [3]
   \<and> ranks_in ex_keyword2 ''A'' = [1] \<and> ranks_in ex_keyword2 ''C'' = [3]
   \<and> (\<exists>fused sx sy. rrf_fuse ex_dense ex_keyword2 60 = Inr fused
        \<and> score_of fused ''A'' = Some sx \<and> score_of fused ''C'' = Some sy \<and> sy < sx)"
proof -
  have r: "ranks_in ex_dense ''A'' = [1]" "ranks_in ex_dense ''C'' = [3]"
    "ranks_in ex_keyword2 ''A'' = [1]" "ranks_in ex_keyword2 ''C'' = [3]"
    by (simp_all add: rrf_ex)
  have "(0 \<le> (60::int) \<longrightarrow> (\<exists>fused. rrf_fuse ex_dense ex_keyword2 60 = Inr fused))
     \<and> (\<forall>fused. rrf_fuse ex_dense ex_keyword2 60 = Inr fused
          \<longrightarrow> (\<exists>sx sy. score_of fused ''A'' = Some sx \<and> score_of fused ''C'' = Some sy \<and> sy < sx))"
    by (rule rrf_monotone [OF r]) simp_all
  with r show ?thesis by (metis zero_le_numeral)
qed

text \<open>
  Claim C6: when one leg is empty and the other lists every record once, the ids of the
  fused list are the ids of that other leg, in its order, whenever the fusion returns, and
  it returns for \<open>k \<ge> 0\<close>. In particular a query without tokens makes the keyword search
  return the empty list, and the hybrid search then returns the records of the dense leg in
  the dense leg's order, cut to the limit.
\<close>

theorem rrf_one_empty_leg:
  "distinct (map pid_of leg)
   \<Longrightarrow> (0 \<le> k \<longrightarrow> (\<exists>fused. rrf_fuse leg [] k = Inr fused) \<and> (\<exists>fused. rrf_fuse [] leg k = Inr fused))
     \<and> (\<forall>fused. rrf_fuse leg [] k = Inr fused \<longrightarrow> map fst fused = map pid_of leg)
     \<and> (\<forall>fused. rrf_fuse [] leg k = Inr fused \<longrightarrow> map fst fused = map pid_of leg)
     \<and> (\<forall>search_dense scroll query limit out.
          tokenize_query query = [] \<and> search_dense query limit = leg
          \<and> search_hybrid search_dense scroll k query limit = Inr out
          \<longrightarrow> search_keyword scroll query limit = []
            \<and> map (\<lambda>d. map_of d ''_id'') out
                = map (Some \<circ> RecordId) (py_prefix limit (map pid_of leg)))"
proof (intro conjI allI impI)
  assume "0 \<le> k"
  then show "\<exists>fused. rrf_fuse leg [] k = Inr fused" "\<exists>fused. rrf_fuse [] leg k = Inr fused"
    by (rule rrf_fuse_total)+
next
  fix fused
  assume "distinct (map pid_of leg)" "rrf_fuse leg [] k = Inr fused"
  then show "map fst fused = map pid_of leg" by (rule rrf_fuse_dense_only)
next
  fix fused
  assume "distinct (map pid_of leg)" "rrf_fuse [] leg k = Inr fused"
  then show "map fst fused = map pid_of leg" by (rule rrf_fuse_keyword_only)
next
  fix search_dense :: "string \<Rightarrow> int \<Rightarrow> 'a scored_point list"
    and scroll :: "(string \<times> string) list \<Rightarrow> int \<Rightarrow> 'a scored_point list"
    and query limit and out :: "(string \<times> 'a out_val) list list"
  assume d: "distinct (map pid_of leg)"
    and h: "tokenize_query query = [] \<and> search_dense query limit = leg
          \<and> search_hybrid search_dense scroll k query limit = Inr out"
  from h show kw: "search_keyword scroll query limit = []"
    by (simp add: search_keyword_def)
  from h obtain fused where
    f: "rrf_fuse (search_dense query limit) (search_keyword scroll query limit) k = Inr fused"
    and ids: "map (\<lambda>d. map_of d ''_id'') out = map (Some \<circ> RecordId) (py_prefix limit (map fst fused))"
    by (blast elim: search_hybrid_ids)
  from f h kw have "rrf_fuse leg [] k = Inr fused" by simp
  with d have "map fst fused = map pid_of leg" by (rule rrf_fuse_dense_only)
  with ids show "map (\<lambda>d. map_of d ''_id'') out
                = map (Some \<circ> RecordId) (py_prefix limit (map pid_of leg))" by simp
qed

theorem rrf_one_empty_leg_witness:
  "distinct (map pid_of ex_dense)
   \<and> tokenize_query ''?? 12 !'' = []
   \<and> (\<exists>fused. rrf_fuse ex_dense [] 60 = Inr fused \<and> map fst fused = [''A'', ''17'', ''C''])
   \<and> (\<exists>fused. rrf_fuse [] ex_dense 60 = Inr fused \<and> map fst fused = [''A'', ''17'', ''C''])
   \<and> (\<exists>out. search_hybrid (\<lambda>q l. ex_dense) (\<lambda>f l. []) 60 ''?? 12 !'' 2 = Inr out
        \<and> map (\<lambda>d. map_of d ''_id'') out = [Some (RecordId ''A''), Some (RecordId ''17'')])"
proof -
  have d: "distinct (map pid_of ex_dense)" by (simp add: rrf_ex)
  have t: "tokenize_query ''?? 12 !'' = []" by (simp add: tok_eval)
  have p: "map pid_of ex_dense = [''A'', ''17'', ''C'']" by (simp add: rrf_ex)
  have h: "search_hybrid (\<lambda>q l. ex_dense) (\<lambda>f l. []) 60 ''?? 12 !'' 2 =
    Inr [[(''leg'', Payload ''dense''), (''_hybrid_score'', HybridScore (1 / 61)), (''_id'', RecordId ''A'')],
         [(''name'', Payload ''b''), (''_hybrid_score'', HybridScore (1 / 62)), (''_id'', RecordId ''17'')]]"
    by (simp add: search_hybrid_def search_keyword_def t py_prefix_def rrf_ex)
  note main = rrf_one_empty_leg [OF d, of 60]
  from main obtain f1 where f1: "rrf_fuse ex_dense [] 60 = Inr f1" by auto
  from main obtain f2 where f2: "rrf_fuse [] ex_dense 60 = Inr f2" by auto
  from main f1 have "map fst f1 = map pid_of ex_dense" by blast
  moreover from main f2 have "map fst f2 = map pid_of ex_dense" by blast
  moreover have "map (\<lambda>d. map_of d ''_id'')
      [[(''leg'', Payload ''dense''), (''_hybrid_score'', HybridScore (1 / 61)), (''_id'', RecordId ''A'')],
       [(''name'', Payload ''b''), (''_hybrid_score'', HybridScore (1 / 62)), (''_id'', RecordId ''17'')]]
     = map (Some \<circ> RecordId) (py_prefix 2 (map pid_of ex_dense))"
  proof -
    have gen: "map (\<lambda>d. map_of d ''_id'') out = map (Some \<circ> RecordId) (py_prefix l (map pid_of ex_dense))"
      if "tokenize_query q = []" "sd q l = ex_dense" "search_hybrid sd sc 60 q l = Inr out"
      for sd :: "string \<Rightarrow> int \<Rightarrow> string scored_point list" and sc q l out
      using main that by blast
    show ?thesis
      by (rule gen [where sd = "\<lambda>q l. ex_dense" and sc = "\<lambda>f l. []" and q = "''?? 12 !''"])
        (simp_all add: t h)
  qed
  ultimately show ?thesis using d t f1 f2 h unfolding p by (simp add: py_prefix_def)
qed

section \<open>Lemmas about the line windows\<close>

lemma chunk_loop_step:
  assumes "start < int (length lines)"
  shows "chunk_loop lines L ov start =
     (start + 1, min (int (length lines)) (start + L),
        join_nl (py_slice lines start (min (int (length lines)) (start + L))))
     # (if min (int (length lines)) (start + L) = int (length lines) then []
        else chunk_loop lines L ov (start + max 1 (L - ov)))"
  using assms by (subst chunk_loop.simps) (simp add: Let_def)

lemma windows_step:
  assumes "start < int (length lines)"
  shows "windows (chunk_loop lines L ov start) =
     (start + 1, min (int (length lines)) (start + L))
     # (if int (length lines) \<le> start + L then []
        else windows (chunk_loop lines L ov (start + max 1 (L - ov))))"
  unfolding chunk_loop_step [OF assms] windows_def by auto

text \<open>The shape of the window list, by induction on the distance to the end of the file.\<close>

lemma windows_bounds:
  assumes "1 \<le> L" "0 \<le> ov" "ov < L" "0 \<le> start" "start < int (length lines)"
  shows "\<forall>w \<in> set (windows (chunk_loop lines L ov start)).
           start + 1 \<le> fst w \<and> fst w \<le> snd w \<and> snd w \<le> int (length lines)
           \<and> snd w - fst w + 1 \<le> L"
  using assms(4,5)
proof (induction "nat (int (length lines) - start)" arbitrary: start rule: less_induct)
  case less
  let ?n = "int (length lines)"
  show ?case
  proof (cases "?n \<le> start + L")
    case True
    with less.prems assms(1) show ?thesis by (simp add: windows_step)
  next
    case False
    let ?s = "start + max 1 (L - ov)"
    from assms(1-3) False less.prems have s: "0 \<le> ?s" "?s < ?n" "start < ?s" by auto
    then have "nat (?n - ?s) < nat (?n - start)" by auto
    from less.hyps [OF this s(1,2)] s(3) False less.prems assms(1) show ?thesis
      by (auto simp: windows_step [OF less.prems(2)])
  qed
qed

lemma windows_last:
  assumes "1 \<le> L" "0 \<le> ov" "ov < L" "0 \<le> start" "start < int (length lines)"
  shows "snd (last (windows (chunk_loop lines L ov start))) = int (length lines)"
  using assms(4,5)
proof (induction "nat (int (length lines) - start)" arbitrary: start rule: less_induct)
  case less
  let ?n = "int (length lines)"
  show ?case
  proof (cases "?n \<le> start + L")
    case True
    with less.prems show ?thesis by (simp add: windows_step)
  next
    case False
    let ?s = "start + max 1 (L - ov)"
    from assms(1-3) False less.prems have s: "0 \<le> ?s" "?s < ?n" "start < ?s" by auto
    then have "nat (?n - ?s) < nat (?n - start)" by auto
    from less.hyps [OF this s(1,2)]
    have IH: "snd (last (windows (chunk_loop lines L ov ?s))) = ?n" .
    have "windows (chunk_loop lines L ov ?s) \<noteq> []"
      by (simp add: windows_step [OF s(2)])
    with IH False show ?thesis
      by (simp add: windows_step [OF less.prems(2)])
  qed
qed

lemma windows_union:
  assumes "1 \<le> L" "0 \<le> ov" "ov < L" "0 \<le> start" "start < int (length lines)"
  shows "(\<Union>w \<in> set (windows (chunk_loop lines L ov start)). {fst w..snd w})
         = {start + 1..int (length lines)}"
  using assms(4,5)
proof (induction "nat (int (length lines) - start)" arbitrary: start rule: less_induct)
  case less
  let ?n = "int (length lines)"
  show ?case
  proof (cases "?n \<le> start + L")
    case True
    with less.prems show ?thesis by (simp add: windows_step)
  next
    case False
    let ?s = "start + max 1 (L - ov)"
    from assms(1-3) False less.prems have s: "0 \<le> ?s" "?s < ?n" "start < ?s" by auto
    then have "nat (?n - ?s) < nat (?n - start)" by auto
    from less.hyps [OF this s(1,2)]
    have IH: "(\<Union>w \<in> set (windows (chunk_loop lines L ov ?s)). {fst w..snd w}) = {?s + 1..?n}" .
    from assms(1-3) have step: "max 1 (L - ov) = L - ov" by simp
    have "{start + 1..start + L} \<union> {?s + 1..?n} = {start + 1..?n}"
      using False assms(1-3) unfolding step by auto
    with IH False show ?thesis
      by (simp add: windows_step [OF less.prems(2)] min_def)
  qed
qed

lemma shared_lines_step:
  assumes "0 \<le> ov" "ov < L" "s + L - 1 \<le> e'"
  shows "shared_lines (s, s + L - 1) (s + (L - ov), e') = nat ov"
proof -
  have eq: "{s..s + L - 1} \<inter> {s + (L - ov)..e'} = {s + (L - ov)..s + L - 1}"
    using assms by auto
  have "shared_lines (s, s + L - 1) (s + (L - ov), e') = card {s + (L - ov)..s + L - 1}"
    unfolding shared_lines_def fst_conv snd_conv eq ..
  also have "\<dots> = nat ov" by simp
  finally show ?thesis .
qed

lemma windows_overlap:
  assumes "1 \<le> L" "0 \<le> ov" "ov < L" "0 \<le> start" "start < int (length lines)"
  shows "successively
           (\<lambda>a b. snd a - fst a + 1 = L \<and> fst b = fst a + (L - ov) \<and> shared_lines a b = nat ov)
           (windows (chunk_loop lines L ov start))"
  using assms(4,5)
proof (induction "nat (int (length lines) - start)" arbitrary: start rule: less_induct)
  case less
  let ?n = "int (length lines)"
  show ?case
  proof (cases "?n \<le> start + L")
    case True
    with less.prems show ?thesis by (simp add: windows_step)
  next
    case False
    let ?s = "start + max 1 (L - ov)"
    from assms(1-3) have step: "max 1 (L - ov) = L - ov" by simp
    from assms(1-3) False less.prems have s: "0 \<le> ?s" "?s < ?n" "start < ?s" by auto
    then have "nat (?n - ?s) < nat (?n - start)" by auto
    note IH = less.hyps [OF this s(1,2)]
    obtain rest where next_w: "windows (chunk_loop lines L ov ?s) = (?s + 1, min ?n (?s + L)) # rest"
      using windows_step [OF s(2), of L ov] by simp
    have m: "min ?n (start + L) = start + 1 + L - 1" using False by simp
    have le: "start + 1 + L - 1 \<le> min ?n (?s + L)" using False assms(1-3) unfolding step by simp
    have sh: "shared_lines (start + 1, start + 1 + L - 1) (start + 1 + (L - ov), min ?n (?s + L)) = nat ov"
      using assms(2,3) le by (rule shared_lines_step)
    have eq: "?s + 1 = start + 1 + (L - ov)" unfolding step by simp
    have "windows (chunk_loop lines L ov start) =
        (start + 1, start + 1 + L - 1) # (start + 1 + (L - ov), min ?n (?s + L)) # rest"
      unfolding windows_step [OF less.prems(2)] m using False next_w eq by simp
    moreover have "successively
           (\<lambda>a b. snd a - fst a + 1 = L \<and> fst b = fst a + (L - ov) \<and> shared_lines a b = nat ov)
           ((start + 1 + (L - ov), min ?n (?s + L)) # rest)"
      using IH unfolding next_w eq .
    ultimately show ?thesis using sh by simp
  qed
qed

lemma splitlines_from_nonempty: "cur \<noteq> [] \<or> text \<noteq> [] \<Longrightarrow> splitlines_from cur text \<noteq> []"
  by (induction cur "text" rule: splitlines_from.induct) (auto split: list.splits)

lemma splitlines_nonempty: "text \<noteq> [] \<Longrightarrow> splitlines text \<noteq> []"
  by (simp add: splitlines_def splitlines_from_nonempty)

section \<open>Theorem about the line windows\<close>

text \<open>
  Claim C7, as the code has it: for every non-empty text of \<open>N\<close> lines, chunk length
  \<open>L \<ge> 1\<close> and overlap \<open>ov\<close> with \<open>0 \<le> ov < L\<close>, the windows of \<^verbatim>\<open>chunk_by_lines\<close>
  are 1-based inclusive ranges within \<open>[1, N]\<close> of at most \<open>L\<close> lines, their union is
  exactly \<open>[1, N]\<close>, the first one starts at line 1, the last one ends at line \<open>N\<close>, and of
  two consecutive windows the first has exactly \<open>L\<close> lines, the second starts \<open>L - ov\<close>
  lines later, and the two share exactly \<open>ov\<close> lines (only the final window may be
  shorter than \<open>L\<close>).
\<close>

theorem chunk_by_lines_coverage:
  assumes "text \<noteq> []" "1 \<le> L" "0 \<le> ov" "ov < L"
  defines "N \<equiv> int (length (splitlines text))"
    and "ws \<equiv> windows (chunk_by_lines text L ov)"
  shows "1 \<le> N \<and> ws \<noteq> []
    \<and> (\<forall>w \<in> set ws. 1 \<le> fst w \<and> fst w \<le> snd w \<and> snd w \<le> N \<and> snd w - fst w + 1 \<le> L)
    \<and> (\<Union>w \<in> set ws. {fst w..snd w}) = {1..N}
    \<and> fst (hd ws) = 1
    \<and> snd (last ws) = N
    \<and> (\<forall>i. Suc i < length ws \<longrightarrow>
          snd (ws ! i) - fst (ws ! i) + 1 = L
          \<and> fst (ws ! Suc i) = fst (ws ! i) + (L - ov)
          \<and> shared_lines (ws ! i) (ws ! Suc i) = nat ov)"
proof -
  from assms(1) have ne: "splitlines text \<noteq> []" by (rule splitlines_nonempty)
  then have N: "0 < N" by (simp add: N_def)
  from ne have ws: "ws = windows (chunk_loop (splitlines text) L ov 0)"
    by (simp add: ws_def chunk_by_lines_def Let_def)
  have z: "(0::int) \<le> 0" by simp
  have lt: "0 < int (length (splitlines text))" using N by (simp add: N_def)
  note b = windows_bounds [OF assms(2-4) z lt, folded ws N_def]
  note l = windows_last [OF assms(2-4) z lt, folded ws N_def]
  note u = windows_union [OF assms(2-4) z lt, folded ws N_def]
  note o = windows_overlap [OF assms(2-4) z lt, folded ws]
  have hd: "ws \<noteq> []" "fst (hd ws) = 1" unfolding ws by (simp_all add: windows_step [OF lt])
  have ov: "\<forall>i. Suc i < length ws \<longrightarrow>
          snd (ws ! i) - fst (ws ! i) + 1 = L
          \<and> fst (ws ! Suc i) = fst (ws ! i) + (L - ov)
          \<and> shared_lines (ws ! i) (ws ! Suc i) = nat ov"
    using o unfolding successively_conv_nth by blast
  from N hd b u l ov show ?thesis by simp
qed


theorem chunk_by_lines_coverage_witness:
  "ex_text \<noteq> [] \<and> (1::int) \<le> 3 \<and> (0::int) \<le> 1 \<and> (1::int) < 3
   \<and> int (length (splitlines ex_text)) = 7
   \<and> windows (chunk_by_lines ex_text 3 1) = [(1, 3), (3, 5), (5, 7)]
   \<and> (\<Union>w \<in> set (windows (chunk_by_lines ex_text 3 1)). {fst w..snd w}) = {1..7}
   \<and> snd (last (windows (chunk_by_lines ex_text 3 1))) = 7
   \<and> shared_lines (1, 3) (3, 5) = 1 \<and> shared_lines (3, 5) (5, 7) = 1"
proof -
  have t: "ex_text \<noteq> []" by (simp add: ex_text_def)
  have n: "int (length (splitlines ex_text)) = 7" by (simp add: chunk_eval)
  have w: "windows (chunk_by_lines ex_text 3 1) = [(1, 3), (3, 5), (5, 7)]"
    by (simp add: chunk_eval)
  have p: "(1::int) \<le> 3" "(0::int) \<le> 1" "(1::int) < 3" by simp_all
  note main = chunk_by_lines_coverage [OF t p, unfolded n w]
  from main have u: "(\<Union>w \<in> set [(1, 3), (3, 5), (5, 7 :: int)]. {fst w..snd w}) = {1..7 :: int}"
    by simp
  from main have l: "snd (last [(1, 3), (3, 5), (5, 7 :: int)]) = (7 :: int)" by simp
  from main have ov: "Suc i < length [(1 :: int, 3 :: int), (3, 5), (5, 7)] \<Longrightarrow>
      shared_lines ([(1, 3), (3, 5), (5, 7 :: int)] ! i) ([(1, 3), (3, 5), (5, 7)] ! Suc i) = nat 1" for i
    by blast
  from ov [of 0] ov [of 1] have s: "shared_lines (1, 3) (3, 5) = 1" "shared_lines (3, 5) (5, 7) = 1"
    by simp_all
  from t n w u l s show ?thesis by simp
qed

text \<open>
  Claim C7 as stated (any overlap below \<open>L\<close>) fails for a negative overlap, which the
  integer parameter admits: the step \<open>L - ov\<close> is then longer than a window, and the lines
  between two windows are in no window. For the example file of seven lines, \<open>L = 2\<close> and
  \<open>ov = -1\<close>, line 3 is not covered.
\<close>

theorem chunk_by_lines_negative_overlap_counterexample:
  "ex_text \<noteq> [] \<and> (1::int) \<le> 2 \<and> (- 1 :: int) < 2
   \<and> int (length (splitlines ex_text)) = 7
   \<and> windows (chunk_by_lines ex_text 2 (- 1)) = [(1, 2), (4, 5), (7, 7)]
   \<and> 3 \<notin> (\<Union>w \<in> set (windows (chunk_by_lines ex_text 2 (- 1))). {fst w..snd w})
   \<and> (\<Union>w \<in> set (windows (chunk_by_lines ex_text 2 (- 1))). {fst w..snd w}) \<noteq> {1..7}"
proof -
  have w: "windows (chunk_by_lines ex_text 2 (- 1)) = [(1, 2), (4, 5), (7, 7)]"
    by (simp add: chunk_eval)
  have n: "int (length (splitlines ex_text)) = 7" by (simp add: chunk_eval)
  have t: "ex_text \<noteq> []" by (simp add: ex_text_def)
  have m: "(3::int) \<notin> (\<Union>w \<in> set [(1, 2), (4, 5), (7, 7 :: int)]. {fst w..snd w})" by simp
  have i: "(3::int) \<in> {1..7}" by simp
  have ne: "(\<Union>w \<in> set [(1, 2), (4, 5), (7, 7 :: int)]. {fst w..snd w}) \<noteq> {1..7 :: int}"
  proof
    assume eq: "(\<Union>w \<in> set [(1, 2), (4, 5), (7, 7 :: int)]. {fst w..snd w}) = {1..7 :: int}"
    have "(3::int) \<in> (\<Union>w \<in> set [(1, 2), (4, 5), (7, 7 :: int)]. {fst w..snd w})"
      unfolding eq by (rule i)
    with m show False by (rule notE)
  qed
  show ?thesis unfolding w n using t m ne by (intro conjI) simp_all
qed

section \<open>Lemmas about the record identifiers\<close>

text \<open>
  \<^verbatim>\<open>str\<close> on an integer is injective: the digits of a natural number give the number
  back, and a digit is never the minus sign.
\<close>

lemma digit_val_digit_char: "d < 10 \<Longrightarrow> digit_val (digit_char d) = d"
proof -
  assume "d < 10"
  then have "d \<in> {0, 1, 2, 3, 4, 5, 6, 7, 8, 9}" by auto
  then show ?thesis by (auto simp: digit_val_def digit_char_def)
qed

lemma digit_char_not_minus: "d < 10 \<Longrightarrow> digit_char d \<noteq> CHR ''-''"
proof -
  assume "d < 10"
  then have "d \<in> {0, 1, 2, 3, 4, 5, 6, 7, 8, 9}" by auto
  then show ?thesis by (auto simp: digit_char_def)
qed

lemma dec_val_str_nat: "dec_val (str_nat n) = n"
proof (induction n rule: str_nat.induct)
  case (1 n)
  show ?case
  proof (cases "n < 10")
    case True
    then show ?thesis
      by (subst str_nat.simps) (simp add: dec_val_def digit_val_digit_char)
  next
    case False
    with "1.IH" have "dec_val (str_nat (n div 10)) = n div 10" by simp
    with False show ?thesis
      by (subst str_nat.simps) (simp add: dec_val_def digit_val_digit_char)
  qed
qed

lemma str_nat_inj: "str_nat m = str_nat n \<Longrightarrow> m = n"
  by (metis dec_val_str_nat)

lemma str_nat_hd: "\<exists>d ds. str_nat n = digit_char d # ds \<and> d < 10"
proof (induction n rule: str_nat.induct)
  case (1 n)
  show ?case
  proof (cases "n < 10")
    case True
    then show ?thesis by (subst str_nat.simps) auto
  next
    case False
    with "1.IH" obtain d ds where "str_nat (n div 10) = digit_char d # ds" "d < 10" by blast
    with False show ?thesis by (subst str_nat.simps) auto
  qed
qed

lemma str_int_inj: "str_int i = str_int j \<Longrightarrow> i = j"
proof -
  assume eq: "str_int i = str_int j"
  have no_minus: "str_nat n \<noteq> CHR ''-'' # s" for n s
  proof -
    obtain d ds where d: "str_nat n = digit_char d # ds" "d < 10"
      using str_nat_hd [of n] by blast
    from digit_char_not_minus [OF d(2)] d(1) show ?thesis by auto
  qed
  then have no_minus': "CHR ''-'' # s \<noteq> str_nat n" for n s by metis
  show ?thesis
  proof (cases "i < 0")
    case True
    with eq no_minus no_minus' have "j < 0" by (auto simp: str_int_def split: if_splits)
    with True eq have "str_nat (nat (- i)) = str_nat (nat (- j))" by (simp add: str_int_def)
    then have "nat (- i) = nat (- j)" by (rule str_nat_inj)
    with True \<open>j < 0\<close> show ?thesis by simp
  next
    case False
    with eq no_minus no_minus' have "\<not> j < 0" by (auto simp: str_int_def split: if_splits)
    with False eq have "str_nat (nat i) = str_nat (nat j)" by (simp add: str_int_def)
    then have "nat i = nat j" by (rule str_nat_inj)
    with False \<open>\<not> j < 0\<close> show ?thesis by simp
  qed
qed

lemma point_key_inj_each:
  "point_key f t s n a b = point_key f' t s n a b \<Longrightarrow> f = f'"
  "point_key f t s n a b = point_key f t' s n a b \<Longrightarrow> t = t'"
  "point_key f t s n a b = point_key f t s' n a b \<Longrightarrow> s = s'"
  "point_key f t s n a b = point_key f t s n' a b \<Longrightarrow> n = n'"
  "point_key f t s n a b = point_key f t s n a' b \<Longrightarrow> a = a'"
  "point_key f t s n a b = point_key f t s n a b' \<Longrightarrow> b = b'"
  by (simp_all add: point_key_def str_int_inj)

lemma uuid5_collision:
  fixes g :: "string \<Rightarrow> uuid"
  shows "\<exists>x y. x \<noteq> y \<and> g x = g y"
proof (rule ccontr)
  assume "\<not> (\<exists>x y. x \<noteq> y \<and> g x = g y)"
  then have "inj g" by (auto simp: inj_on_def)
  moreover have "finite (range g)" by (rule finite_subset [OF subset_UNIV]) simp
  ultimately have "finite (UNIV :: string set)" by (rule finite_imageD [rotated])
  then show False by (simp add: infinite_UNIV_listI)
qed

section \<open>Theorems about the record identifiers\<close>

text \<open>
  Claim C8, as the code has it: the identifier is \<^verbatim>\<open>str(uuid5(NAMESPACE_URL, key))\<close> for
  the composite key string \<open>file::type::symbol::name::start-end\<close>, so it is a function of
  the six values (two items that agree on type, symbol, name, start line and end line get
  the same identifier for the same file, whatever their other fields), and changing any one
  of the six values while the others stay fixed changes the key string that is hashed. The
  identifier then changes too unless the two keys collide under the hash.
\<close>

theorem stable_point_id_key:
  "stable_point_id uuid5 file_path item = str_uuid (uuid5 NAMESPACE_URL (key_of_item file_path item))
   \<and> (it_type item = it_type item' \<and> it_symbol item = it_symbol item' \<and> it_name item = it_name item'
        \<and> it_start_line item = it_start_line item' \<and> it_end_line item = it_end_line item'
      \<longrightarrow> stable_point_id uuid5 file_path item = stable_point_id uuid5 file_path item')
   \<and> (f \<noteq> f' \<longrightarrow> point_key f t s n a b \<noteq> point_key f' t s n a b)
   \<and> (t \<noteq> t' \<longrightarrow> point_key f t s n a b \<noteq> point_key f t' s n a b)
   \<and> (s \<noteq> s' \<longrightarrow> point_key f t s n a b \<noteq> point_key f t s' n a b)
   \<and> (n \<noteq> n' \<longrightarrow> point_key f t s n a b \<noteq> point_key f t s n' a b)
   \<and> (a \<noteq> a' \<longrightarrow> point_key f t s n a b \<noteq> point_key f t s n a' b)
   \<and> (b \<noteq> b' \<longrightarrow> point_key f t s n a b \<noteq> point_key f t s n a b')"
proof -
  have id: "stable_point_id h p i = str_uuid (h NAMESPACE_URL (key_of_item p i))" for h p i
    by (simp add: stable_point_id_def key_of_item_def Let_def)
  have same: "it_type item = it_type item' \<and> it_symbol item = it_symbol item' \<and> it_name item = it_name item'
        \<and> it_start_line item = it_start_line item' \<and> it_end_line item = it_end_line item'
      \<longrightarrow> key_of_item file_path item = key_of_item file_path item'"
    by (simp add: key_of_item_def)
  from id same point_key_inj_each [of f t s n a b] show ?thesis
    by (intro conjI impI) (auto simp only: id)
qed

theorem stable_point_id_key_witness:
  "key_of_item ''a.py'' ex_item = ''a.py::Function::f::a.py::f::3-7''
   \<and> stable_point_id (\<lambda>ns name. ns) ''a.py'' ex_item = ''6ba7b811-9dad-11d1-80b4-00c04fd430c8''
   \<and> stable_point_id (\<lambda>ns name. ns) ''a.py'' ex_item
       = stable_point_id (\<lambda>ns name. ns) ''a.py'' (ex_item\<lparr>it_code := Some ''def f(): return 1''\<rparr>)
   \<and> ''a.py'' \<noteq> ''b.py''
   \<and> point_key ''a.py'' ''Function'' ''f'' ''a.py::f'' 3 7 \<noteq> point_key ''b.py'' ''Function'' ''f'' ''a.py::f'' 3 7
   \<and> (3::int) \<noteq> 13
   \<and> point_key ''a.py'' ''Function'' ''f'' ''a.py::f'' 3 7 \<noteq> point_key ''a.py'' ''Function'' ''f'' ''a.py::f'' 13 7"
proof -
  have k: "key_of_item ''a.py'' ex_item = ''a.py::Function::f::a.py::f::3-7''"
    by (simp add: key_of_item_def ex_item_def get_or_def point_key_def str_int_def str_nat.simps
        digit_char_def)
  have u: "str_uuid NAMESPACE_URL = ''6ba7b811-9dad-11d1-80b4-00c04fd430c8''"
    by (simp add: str_uuid_def hex_digits_def NAMESPACE_URL_def hex_char_def
        upt_rec [of _ "numeral _"] drop_bit_eq_div unat_div unat_mod Let_def)
  have fields: "it_type ex_item = it_type (ex_item\<lparr>it_code := Some ''def f(): return 1''\<rparr>)
      \<and> it_symbol ex_item = it_symbol (ex_item\<lparr>it_code := Some ''def f(): return 1''\<rparr>)
      \<and> it_name ex_item = it_name (ex_item\<lparr>it_code := Some ''def f(): return 1''\<rparr>)
      \<and> it_start_line ex_item = it_start_line (ex_item\<lparr>it_code := Some ''def f(): return 1''\<rparr>)
      \<and> it_end_line ex_item = it_end_line (ex_item\<lparr>it_code := Some ''def f(): return 1''\<rparr>)"
    by simp
  note main = stable_point_id_key [of "\<lambda>ns name. ns" "''a.py''" ex_item
      "ex_item\<lparr>it_code := Some ''def f(): return 1''\<rparr>"
      "''a.py''" "''b.py''" "''Function''" "''f''" "''a.py::f''" 3 7 _ _ _ 13]
  from main have "stable_point_id (\<lambda>ns name. ns) ''a.py'' ex_item = str_uuid NAMESPACE_URL" by blast
  moreover from main fields have "stable_point_id (\<lambda>ns name. ns) ''a.py'' ex_item
       = stable_point_id (\<lambda>ns name. ns) ''a.py'' (ex_item\<lparr>it_code := Some ''def f(): return 1''\<rparr>)"
    by blast
  moreover have ne: "''a.py'' \<noteq> ''b.py''" "(3::int) \<noteq> 13" by simp_all
  moreover from main ne have
    "point_key ''a.py'' ''Function'' ''f'' ''a.py::f'' 3 7 \<noteq> point_key ''b.py'' ''Function'' ''f'' ''a.py::f'' 3 7"
    "point_key ''a.py'' ''Function'' ''f'' ''a.py::f'' 3 7 \<noteq> point_key ''a.py'' ''Function'' ''f'' ''a.py::f'' 13 7"
    by blast+
  ultimately show ?thesis using k u by simp
qed

text \<open>
  Claim C8 as stated (changing a field always changes the identifier) fails for every
  possible \<^verbatim>\<open>uuid5\<close>: identifiers have 128 bits and there are infinitely many file
  paths, so two different paths give the same identifier for the same item.
\<close>

theorem stable_point_id_collision_counterexample:
  "\<not> (\<exists>uuid5 :: uuid \<Rightarrow> string \<Rightarrow> uuid.
        \<forall>file_path file_path' item. file_path \<noteq> file_path'
          \<longrightarrow> stable_point_id uuid5 file_path item \<noteq> stable_point_id uuid5 file_path' item)"
proof
  assume "\<exists>uuid5 :: uuid \<Rightarrow> string \<Rightarrow> uuid.
        \<forall>file_path file_path' item. file_path \<noteq> file_path'
          \<longrightarrow> stable_point_id uuid5 file_path item \<noteq> stable_point_id uuid5 file_path' item"
  then obtain uuid5 :: "uuid \<Rightarrow> string \<Rightarrow> uuid" where
    inj: "\<And>p p' i. p \<noteq> p' \<Longrightarrow> stable_point_id uuid5 p i \<noteq> stable_point_id uuid5 p' i"
    by blast
  obtain x y where "x \<noteq> y"
    and "uuid5 NAMESPACE_URL (key_of_item x ex_item) = uuid5 NAMESPACE_URL (key_of_item y ex_item)"
    using uuid5_collision [of "\<lambda>p. uuid5 NAMESPACE_URL (key_of_item p ex_item)"] by blast
  then have "x \<noteq> y" "stable_point_id uuid5 x ex_item = stable_point_id uuid5 y ex_item"
    by (simp_all add: stable_point_id_def key_of_item_def Let_def)
  with inj show False by blast
qed

section \<open>Lemmas about the extraction run\<close>

lemma parse_syntax_error:
  "ast_visit fp content = Inl (SyntaxError cls msg)
   \<Longrightarrow> parse ast_visit fp content =
       Inr \<lparr>ar_items = [], ar_imports = [], ar_global_variables = [],
            ar_syntax_error = Some (cls @ '': '' @ msg)\<rparr>"
  by (simp add: parse_def)

lemma parse_returns:
  "\<not> uncaught (ast_visit fp content) \<Longrightarrow> \<exists>r. parse ast_visit fp content = Inr r"
  by (auto simp: parse_def uncaught_def split: sum.splits py_error.splits)

lemma process_file_returns:
  "\<not> file_raises ast_visit (fp, c) \<Longrightarrow> \<exists>e es. process_file ast_visit L ov fp c = Inr (e, es)"
proof (cases c)
  case None
  then show ?thesis by (simp add: process_file_def)
next
  case (Some content)
  assume "\<not> file_raises ast_visit (fp, c)"
  with Some have "\<not> uncaught (ast_visit fp content)" by (simp add: file_raises_def)
  then obtain r where "parse ast_visit fp content = Inr r" using parse_returns by blast
  with Some show ?thesis by (simp add: process_file_def Let_def)
qed

lemma run_loop_result:
  assumes "distinct (map fst files)" "fst ` set files \<inter> fst ` set parsed = {}"
    and "\<forall>f \<in> set files. \<not> file_raises ast_visit f"
  shows "\<exists>parsed' errs'.
           run_loop ast_visit L ov files (parsed, errs) = Inr (parsed', errs')
           \<and> map fst parsed' = map fst parsed @ map fst files
           \<and> (\<forall>g. g \<notin> fst ` set files \<longrightarrow> map_of parsed' g = map_of parsed g)
           \<and> (\<forall>f \<in> set files. \<exists>e es. process_file ast_visit L ov (fst f) (snd f) = Inr (e, es)
                  \<and> map_of parsed' (fst f) = Some e \<and> set es \<subseteq> set errs')
           \<and> set errs \<subseteq> set errs'"
  using assms
proof (induction files arbitrary: parsed errs)
  case Nil
  then show ?case by simp
next
  case (Cons f files)
  obtain fp c where f: "f = (fp, c)" by (cases f)
  from Cons.prems(3) have "\<not> file_raises ast_visit (fp, c)" by (simp add: f)
  then obtain e es where pf: "process_file ast_visit L ov fp c = Inr (e, es)"
    using process_file_returns by blast
  from Cons.prems(2) have fresh: "fp \<notin> fst ` set parsed" by (auto simp: f)
  then have upd: "AList.update fp e parsed = parsed @ [(fp, e)]" by (rule update_fresh)
  from Cons.prems(1) have d: "distinct (map fst files)" and nin: "fp \<notin> fst ` set files"
    by (auto simp: f)
  from Cons.prems(2) nin have disj: "fst ` set files \<inter> fst ` set (parsed @ [(fp, e)]) = {}"
    by (auto simp: f)
  from Cons.prems(3) have nr: "\<forall>f \<in> set files. \<not> file_raises ast_visit f" by simp
  from Cons.IH [OF d disj nr, of "errs @ es"] obtain parsed' errs' where
    r: "run_loop ast_visit L ov files (parsed @ [(fp, e)], errs @ es) = Inr (parsed', errs')"
    and k: "map fst parsed' = map fst (parsed @ [(fp, e)]) @ map fst files"
    and o: "\<forall>g. g \<notin> fst ` set files \<longrightarrow> map_of parsed' g = map_of (parsed @ [(fp, e)]) g"
    and m: "\<forall>f \<in> set files. \<exists>e es. process_file ast_visit L ov (fst f) (snd f) = Inr (e, es)
                  \<and> map_of parsed' (fst f) = Some e \<and> set es \<subseteq> set errs'"
    and s: "set (errs @ es) \<subseteq> set errs'"
    by blast
  have run: "run_loop ast_visit L ov (f # files) (parsed, errs) = Inr (parsed', errs')"
    by (simp add: f pf upd r)
  from fresh have none: "map_of parsed fp = None" by (simp add: map_of_eq_None_iff)
  from o nin have "map_of parsed' fp = map_of (parsed @ [(fp, e)]) fp" by blast
  with none have here: "map_of parsed' fp = Some e" by (simp add: map_add_def)
  have other: "\<forall>g. g \<notin> fst ` set (f # files) \<longrightarrow> map_of parsed' g = map_of parsed g"
  proof (intro allI impI)
    fix g assume g: "g \<notin> fst ` set (f # files)"
    then have "g \<noteq> fp" "g \<notin> fst ` set files" by (auto simp: f)
    with o show "map_of parsed' g = map_of parsed g"
      by (auto simp: map_add_def split: option.splits)
  qed
  show ?case
  proof (intro exI conjI)
    show "run_loop ast_visit L ov (f # files) (parsed, errs) = Inr (parsed', errs')" by (rule run)
    show "map fst parsed' = map fst parsed @ map fst (f # files)" using k by (simp add: f)
    show "\<forall>g. g \<notin> fst ` set (f # files) \<longrightarrow> map_of parsed' g = map_of parsed g" by (rule other)
    show "\<forall>f' \<in> set (f # files). \<exists>e es. process_file ast_visit L ov (fst f') (snd f') = Inr (e, es)
                  \<and> map_of parsed' (fst f') = Some e \<and> set es \<subseteq> set errs'"
      using m pf here s by (auto simp: f)
    show "set errs \<subseteq> set errs'" using s by simp
  qed
qed

lemma chunk_by_lines_nonempty: "content \<noteq> [] \<Longrightarrow> chunk_by_lines content L ov \<noteq> []"
proof -
  assume "content \<noteq> []"
  then have "splitlines content \<noteq> []" by (rule splitlines_nonempty)
  then show ?thesis
    by (simp add: chunk_by_lines_def Let_def chunk_loop_step)
qed

section \<open>Theorem about the extraction run\<close>

text \<open>
  Claim C9: when the parse of a file's text fails with a syntax error, \<^verbatim>\<open>parse\<close> returns
  an empty item list together with the message \<open>class: text\<close> instead of raising. In a run
  over files with distinct paths in which no file makes \<^verbatim>\<open>parse\<close> raise, the run returns,
  the failed file's entry has no syntactic items, carries the message and carries the chunks
  of the windowing pass (at least one for a non-empty text), every file has its own entry,
  the one that processing this file alone gives, and the error is counted and recorded
  with the file's path in the list of syntax errors (which keeps the first 200).
\<close>

theorem run_parse_failure:
  assumes "distinct (map fst files)"
    and "(fp, Some content) \<in> set files"
    and "ast_visit fp content = Inl (SyntaxError cls msg)"
    and "\<forall>f \<in> set files. \<not> file_raises ast_visit f"
  shows "parse ast_visit fp content =
           Inr \<lparr>ar_items = [], ar_imports = [], ar_global_variables = [],
                ar_syntax_error = Some (cls @ '': '' @ msg)\<rparr>
    \<and> (\<exists>final. run ast_visit L ov repo_root readme files = Inr final
         \<and> map_of (fd_parsed_code final) fp =
             Some \<lparr>fe_ast_items = [],
                   fe_file_chunks = map (file_chunk_item fp) (chunk_by_lines content L ov),
                   fe_imports = [], fe_global_variables = [],
                   fe_syntax_error = Some (cls @ '': '' @ msg)\<rparr>
         \<and> (content \<noteq> [] \<longrightarrow> chunk_by_lines content L ov \<noteq> [])
         \<and> map fst (fd_parsed_code final) = map fst files
         \<and> (\<forall>f \<in> set files. \<exists>e es. process_file ast_visit L ov (fst f) (snd f) = Inr (e, es)
                \<and> map_of (fd_parsed_code final) (fst f) = Some e)
         \<and> 1 \<le> fd_num_syntax_errors final
         \<and> ((fp, cls @ '': '' @ msg) \<in> set (fd_syntax_errors final)
              \<or> length (fd_syntax_errors final) = 200))"
proof -
  let ?m = "cls @ '': '' @ msg"
  let ?entry = "\<lparr>fe_ast_items = [],
                   fe_file_chunks = map (file_chunk_item fp) (chunk_by_lines content L ov),
                   fe_imports = [], fe_global_variables = [],
                   fe_syntax_error = Some ?m\<rparr>"
  have p: "parse ast_visit fp content =
           Inr \<lparr>ar_items = [], ar_imports = [], ar_global_variables = [],
                ar_syntax_error = Some ?m\<rparr>"
    using assms(3) by (rule parse_syntax_error)
  have pf: "process_file ast_visit L ov fp (Some content) = Inr (?entry, [(fp, ?m)])"
    by (simp add: process_file_def p Let_def)
  from run_loop_result [OF assms(1) _ assms(4), of "[]" L ov "[]"] obtain parsed errs where
    r: "run_loop ast_visit L ov files ([], []) = Inr (parsed, errs)"
    and k: "map fst parsed = map fst files"
    and m: "\<forall>f \<in> set files. \<exists>e es. process_file ast_visit L ov (fst f) (snd f) = Inr (e, es)
                  \<and> map_of parsed (fst f) = Some e \<and> set es \<subseteq> set errs"
    by auto
  define final where "final =
    \<lparr>fd_repo_root = repo_root, fd_readme = readme, fd_parsed_code = parsed,
     fd_num_files = length files, fd_num_syntax_errors = length errs,
     fd_chunk_lines = L, fd_chunk_overlap = ov, fd_syntax_errors = take 200 errs\<rparr>"
  have run: "run ast_visit L ov repo_root readme files = Inr final"
    by (simp add: run_def r final_def)
  from m assms(2) obtain e es where
    "process_file ast_visit L ov fp (Some content) = Inr (e, es)"
    "map_of parsed fp = Some e" "set es \<subseteq> set errs"
    by fastforce
  with pf have here: "map_of parsed fp = Some ?entry" and err: "(fp, ?m) \<in> set errs" by auto
  from err have "errs \<noteq> []" by auto
  then have num: "1 \<le> length errs" by (cases errs) simp_all
  have cap: "(fp, ?m) \<in> set (take 200 errs) \<or> length (take 200 errs) = 200"
  proof (cases "length errs \<le> 200")
    case True
    with err show ?thesis by simp
  next
    case False
    then show ?thesis by simp
  qed
  have all: "\<forall>f \<in> set files. \<exists>e es. process_file ast_visit L ov (fst f) (snd f) = Inr (e, es)
                \<and> map_of parsed (fst f) = Some e"
    using m by blast
  have ne: "content \<noteq> [] \<longrightarrow> chunk_by_lines content L ov \<noteq> []"
    by (simp add: chunk_by_lines_nonempty)
  have "run ast_visit L ov repo_root readme files = Inr final
         \<and> map_of (fd_parsed_code final) fp = Some ?entry
         \<and> (content \<noteq> [] \<longrightarrow> chunk_by_lines content L ov \<noteq> [])
         \<and> map fst (fd_parsed_code final) = map fst files
         \<and> (\<forall>f \<in> set files. \<exists>e es. process_file ast_visit L ov (fst f) (snd f) = Inr (e, es)
                \<and> map_of (fd_parsed_code final) (fst f) = Some e)
         \<and> 1 \<le> fd_num_syntax_errors final
         \<and> ((fp, ?m) \<in> set (fd_syntax_errors final) \<or> length (fd_syntax_errors final) = 200)"
    using run here ne k all num cap by (simp add: final_def)
  then show ?thesis using p by blast
qed

theorem run_parse_failure_witness:
  "distinct (map fst ex_files) \<and> (''bad.py'', Some ''def f(:'') \<in> set ex_files
   \<and> ex_ast_visit ''bad.py'' ''def f(:'' = Inl (SyntaxError ''SyntaxError'' ''invalid syntax'')
   \<and> list_all (\<lambda>f. \<not> file_raises ex_ast_visit f) ex_files
   \<and> parse ex_ast_visit ''bad.py'' ''def f(:'' =
        Inr \<lparr>ar_items = [], ar_imports = [], ar_global_variables = [],
             ar_syntax_error = Some ''SyntaxError: invalid syntax''\<rparr>
   \<and> (\<exists>final. run ex_ast_visit 200 40 ''/repo'' ''readme'' ex_files = Inr final
        \<and> map_of (fd_parsed_code final) ''bad.py'' =
            Some \<lparr>fe_ast_items = [],
                  fe_file_chunks = [file_chunk_item ''bad.py'' (1, 1, ''def f(:'')],
                  fe_imports = [], fe_global_variables = [],
                  fe_syntax_error = Some ''SyntaxError: invalid syntax''\<rparr>
        \<and> map fst (fd_parsed_code final) = [''good.py'', ''bad.py'', ''big.py'', ''last.py'']
        \<and> fd_syntax_errors final = [(''bad.py'', ''SyntaxError: invalid syntax'')])"
proof -
  have d: "distinct (map fst ex_files)" by (simp add: ex_files_def)
  have m: "(''bad.py'', Some ''def f(:'') \<in> set ex_files" by (simp add: ex_files_def)
  have f: "ex_ast_visit ''bad.py'' ''def f(:'' = Inl (SyntaxError ''SyntaxError'' ''invalid syntax'')"
    by (simp add: ex_ast_visit_def)
  have o: "\<forall>f \<in> set ex_files. \<not> file_raises ex_ast_visit f"
    by (simp add: ex_files_def file_raises_def uncaught_def ex_ast_visit_def)
  have c: "chunk_by_lines ''def f(:'' 200 40 = [(1, 1, ''def f(:'')]"
    by (simp add: run_eval)
  have e: "\<And>final. run ex_ast_visit 200 40 ''/repo'' ''readme'' ex_files = Inr final
    \<Longrightarrow> fd_syntax_errors final = [(''bad.py'', ''SyntaxError: invalid syntax'')]"
    by (auto simp: run_eval)
  from run_parse_failure [OF d m f o, of 200 40 "''/repo''" "''readme''"] c e o
  show ?thesis using d m f
    by (auto simp: ex_files_def list_all_iff)
qed

section \<open>Lemmas about the ingestion\<close>

lemma strip_Nil_or_edges:
  "strip s = [] \<or> (\<not> is_space (hd (strip s)) \<and> \<not> is_space (last (strip s)))"
proof (cases "strip s = []")
  case True
  then show ?thesis by simp
next
  case False
  define t where "t = dropWhile is_space s"
  define u where "u = dropWhile is_space (rev t)"
  have s: "strip s = rev u" by (simp add: strip_def t_def u_def)
  with False have u: "u \<noteq> []" by simp
  then have hu: "\<not> is_space (hd u)" unfolding u_def by (rule hd_dropWhile)
  from u have "last (strip s) = hd u" by (simp add: s last_rev)
  with hu have l: "\<not> is_space (last (strip s))" by simp
  have "\<exists>ys. rev t = ys @ u" unfolding u_def by (metis takeWhile_dropWhile_id)
  then obtain ys where "rev t = ys @ u" by blast
  then have t_eq: "t = rev u @ rev ys" by (metis rev_append rev_rev_ident)
  with u have "t \<noteq> []" by simp
  then have "\<not> is_space (hd t)" unfolding t_def by (rule hd_dropWhile)
  moreover from t_eq u have "hd t = hd (rev u)" by simp
  ultimately have "\<not> is_space (hd (strip s))" by (simp add: s)
  with l show ?thesis by simp
qed

lemma strip_idem: "strip (strip s) = strip s"
proof (cases "strip s = []")
  case True
  have "strip [] = []" by (simp add: strip_def)
  with True show ?thesis by simp
next
  case False
  with strip_Nil_or_edges [of s]
  have h: "\<not> is_space (hd (strip s))" and l: "\<not> is_space (last (strip s))" by simp_all
  from False h have 1: "dropWhile is_space (strip s) = strip s"
    by (cases "strip s") simp_all
  from False l have 2: "dropWhile is_space (rev (strip s)) = rev (strip s)"
    by (cases "rev (strip s)") (simp_all add: hd_rev [symmetric])
  show ?thesis
    by (subst strip_def) (simp add: 1 2)
qed

lemma item_loop_eq:
  "item_loop uuid5 emb rr fp items points =
     points @ map (\<lambda>item. build_point uuid5 emb rr fp item (stripped_code item))
                (filter (\<lambda>item. stripped_code item \<noteq> []) items)"
  by (induction items arbitrary: points) (simp_all add: Let_def stripped_code_def)

lemma file_loop_eq:
  "file_loop uuid5 emb rr parsed points =
     points @ map (\<lambda>(fp, item). build_point uuid5 emb rr fp item (stripped_code item))
                (filter (\<lambda>(fp, item). stripped_code item \<noteq> []) (all_items parsed))"
proof (induction parsed arbitrary: points)
  case Nil
  show ?case by (simp add: all_items_def)
next
  case (Cons a parsed)
  obtain fp info where a: "a = (fp, info)" by (cases a)
  have "all_items (a # parsed) = map (Pair fp) (fe_ast_items info @ fe_file_chunks info) @ all_items parsed"
    by (simp add: all_items_def a)
  then show ?case
    by (simp add: a Cons.IH item_loop_eq filter_map comp_def)
qed

lemma build_point_code: "p_code (ps_payload (build_point uuid5 emb rr fp item c)) = c"
  by (simp add: build_point_def Let_def)

lemma file_loop_codes:
  "map (\<lambda>p. p_code (ps_payload p)) (file_loop uuid5 emb rr parsed []) =
     filter (\<lambda>c. c \<noteq> []) (map (\<lambda>(fp, item). stripped_code item) (all_items parsed))"
  by (simp add: file_loop_eq filter_map comp_def case_prod_unfold build_point_code)

lemma file_loop_code_ok:
  assumes "p \<in> set (file_loop uuid5 emb rr parsed [])"
  shows "p_code (ps_payload p) \<noteq> [] \<and> strip (p_code (ps_payload p)) = p_code (ps_payload p)"
proof -
  from assms obtain fp item where "stripped_code item \<noteq> []"
    and "p = build_point uuid5 emb rr fp item (stripped_code item)"
    by (auto simp: file_loop_eq)
  then show ?thesis by (simp add: build_point_code stripped_code_def strip_idem)
qed

lemma concat_slices: "0 < n \<Longrightarrow> concat (slices n xs) = xs"
proof (induction n xs rule: slices.induct)
  case (1 n xs)
  show ?case
  proof (cases "xs = []")
    case True
    then show ?thesis by (subst slices.simps) simp
  next
    case False
    with "1.prems" "1.IH" have "concat (slices n (drop n xs)) = drop n xs" by simp
    with False "1.prems" show ?thesis by (subst slices.simps) simp
  qed
qed

lemma batched_subset:
  "batched it bs = Inr batches \<Longrightarrow> b \<in> set batches \<Longrightarrow> set b \<subseteq> set it"
proof -
  assume a: "batched it bs = Inr batches" "b \<in> set batches"
  show ?thesis
  proof (cases "0 < bs")
    case True
    with a(1) have "batches = slices (nat bs) it" by (simp add: batched_def)
    with True have "concat batches = it" by (simp add: concat_slices)
    with a(2) show ?thesis by (metis UN_I set_concat subsetI)
  next
    case False
    with a show ?thesis by (auto simp: batched_def split: if_splits)
  qed
qed

section \<open>Theorem about the ingestion\<close>

text \<open>
  Claim C10: every point in every batch that \<^verbatim>\<open>run_ingest\<close> upserts has a code payload
  that is non-empty and stripped; the code payloads of the points built from an artifact
  are, in order, the stripped codes of its items (syntactic units and file chunks) without
  the empty ones, so an item whose code is absent, empty or white space only gives no
  point; and for a positive batch size the batches are exactly the points built.
\<close>

theorem run_ingest_nonempty_code:
  "(\<forall>batches. run_ingest uuid5 emb bs data_opt = Inr batches \<longrightarrow>
      (\<forall>b \<in> set batches. \<forall>p \<in> set b.
         p_code (ps_payload p) \<noteq> [] \<and> strip (p_code (ps_payload p)) = p_code (ps_payload p)))
   \<and> map (\<lambda>p. p_code (ps_payload p)) (file_loop uuid5 emb rr parsed []) =
       filter (\<lambda>c. c \<noteq> []) (map (\<lambda>(fp, item). stripped_code item) (all_items parsed))
   \<and> (0 < bs \<longrightarrow>
        (\<exists>batches. run_ingest uuid5 emb bs (Some data) = Inr batches
           \<and> concat batches =
               file_loop uuid5 emb (get_or (d_repo_root data) []) (get_or (d_parsed_code data) []) []))"
proof (intro conjI allI impI ballI)
  fix batches b p
  assume r: "run_ingest uuid5 emb bs data_opt = Inr batches" and b: "b \<in> set batches" and p: "p \<in> set b"
  from b have ne: "batches \<noteq> []" by auto
  from r ne obtain data :: ingest_data where
    bt: "batched (file_loop uuid5 emb (get_or (d_repo_root data) []) (get_or (d_parsed_code data) []) []) bs
          = Inr batches"
    by (auto simp: run_ingest_def Let_def split: option.splits if_splits)
  from batched_subset [OF bt b] p
  have "p \<in> set (file_loop uuid5 emb (get_or (d_repo_root data) []) (get_or (d_parsed_code data) []) [])"
    by blast
  then have ok: "p_code (ps_payload p) \<noteq> [] \<and> strip (p_code (ps_payload p)) = p_code (ps_payload p)"
    by (rule file_loop_code_ok)
  from ok show "p_code (ps_payload p) \<noteq> []" by simp
  from ok show "strip (p_code (ps_payload p)) = p_code (ps_payload p)" by simp
next
  show "map (\<lambda>p. p_code (ps_payload p)) (file_loop uuid5 emb rr parsed []) =
       filter (\<lambda>c. c \<noteq> []) (map (\<lambda>(fp, item). stripped_code item) (all_items parsed))"
    by (rule file_loop_codes)
next
  assume pos: "0 < bs"
  let ?points = "file_loop uuid5 emb (get_or (d_repo_root data) []) (get_or (d_parsed_code data) []) []"
  show "\<exists>batches. run_ingest uuid5 emb bs (Some data) = Inr batches \<and> concat batches = ?points"
  proof (cases "get_or (d_parsed_code data) [] = [] \<or> ?points = []")
    case True
    then have "run_ingest uuid5 emb bs (Some data) = Inr []" "?points = []"
      by (auto simp: run_ingest_def Let_def)
    then show ?thesis by simp
  next
    case False
    with pos have "run_ingest uuid5 emb bs (Some data) = Inr (slices (nat bs) ?points)"
      by (simp add: run_ingest_def Let_def batched_def)
    moreover from pos have "concat (slices (nat bs) ?points) = ?points"
      by (simp add: concat_slices)
    ultimately show ?thesis by blast
  qed
qed

theorem run_ingest_nonempty_code_witness:
  "map (\<lambda>(fp, item). stripped_code item) (all_items ex_parsed)
     = [''def f(): pass'', [], [], ''x = 1'', [], ''y'']
   \<and> (\<exists>batches. run_ingest (\<lambda>ns name. ns) length 2
          (Some \<lparr>d_repo_root = Some ''/repo'', d_parsed_code = Some ex_parsed\<rparr>) = Inr batches
        \<and> map (map (\<lambda>p. p_code (ps_payload p))) batches = [[''def f(): pass'', ''x = 1''], [''y'']]
        \<and> list_all (list_all (\<lambda>p. p_code (ps_payload p) \<noteq> []
             \<and> strip (p_code (ps_payload p)) = p_code (ps_payload p))) batches)"
proof -
  let ?data = "\<lparr>d_repo_root = Some ''/repo'', d_parsed_code = Some ex_parsed\<rparr>"
  have codes: "map (\<lambda>(fp, item). stripped_code item) (all_items ex_parsed)
     = [''def f(): pass'', [], [], ''x = 1'', [], ''y'']"
    by (simp add: ingest_eval)
  note main = run_ingest_nonempty_code [of "\<lambda>ns name. ns" length 2 "Some ?data" "''/repo''" ex_parsed ?data]
  have pos: "(0::int) < 2" by simp
  from main pos obtain batches where
    r: "run_ingest (\<lambda>ns name. ns) length 2 (Some ?data) = Inr batches"
    and c: "concat batches = file_loop (\<lambda>ns name. ns) length ''/repo'' ex_parsed []"
    by (auto simp: get_or_def)
  from main r have ok: "\<forall>b \<in> set batches. \<forall>p \<in> set b.
         p_code (ps_payload p) \<noteq> [] \<and> strip (p_code (ps_payload p)) = p_code (ps_payload p)"
    by blast
  have "map (map (\<lambda>p. p_code (ps_payload p))) batches = [[''def f(): pass'', ''x = 1''], [''y'']]"
    using r by (auto simp: ingest_eval)
  with r ok codes show ?thesis by (auto simp: list_all_iff)
qed

end
